theory Spec2Isabelle
  imports Complex_Main "HOL-Library.AList" "HOL-Library.Log_Nat"
begin

section \<open>Data model of the job store (backend/src/index.ts)\<close>

text \<open>
  The \<^verbatim>\<open>Job\<close> interface: \<^verbatim>\<open>status\<close> is a union of five string literals,
  \<^verbatim>\<open>file\<close> is \<^verbatim>\<open>string | null\<close>, \<^verbatim>\<open>error\<close> is an optional string and
  \<^verbatim>\<open>createdAt\<close> a millisecond time stamp (\<^verbatim>\<open>Date.now()\<close>), an integer.
\<close>

datatype job_status = Pending | Downloading | Processing | Completed | Error

text \<open>
  \<^verbatim>\<open>progress\<close> is a JavaScript number, an IEEE 754 double. The only values the
  program stores there are the literals 0 and 100 and results of \<^verbatim>\<open>parseFloat\<close> on
  digits, a dot, digits: doubles that are not negative, or \<^verbatim>\<open>Infinity\<close>. A finite
  double is kept as the rational it is. \<open>to_double\<close> is the Number value of a
  rational that is not negative: round to the nearest double, ties to the even
  significand, \<^verbatim>\<open>Infinity\<close> from \<open>2 ^ 1024 - 2 ^ 970\<close> on. With \<open>e\<close> the binary
  exponent of \<open>x\<close>, the doubles near \<open>x\<close> are the multiples of \<open>2 ^ p\<close> for
  \<open>p = e - 52\<close> (53 significant bits), and of \<open>2 ^ - 1074\<close> for subnormal \<open>x\<close>;
  the rounded significand \<open>m\<close> is at most \<open>2 ^ 53\<close>, so the result reaches
  \<open>2 ^ 1024\<close> exactly when \<open>p\<close> exceeds 971, or is 971 with \<open>m = 2 ^ 53\<close>.
\<close>

datatype number = Num rat | Infinity

definition round_half_even :: "rat \<Rightarrow> int" where
  "round_half_even x =
     (let f = \<lfloor>x\<rfloor>; d = x - of_int f in
      if d < 1 / 2 then f
      else if 1 / 2 < d then f + 1
      else if even f then f else f + 1)"

definition floor_log2 :: "rat \<Rightarrow> int" where
  "floor_log2 x =
     (if 1 \<le> x then int (floorlog 2 (nat \<lfloor>x\<rfloor>)) - 1
      else - int (floorlog 2 (nat (\<lceil>1 / x\<rceil> - 1))))"

definition pow2 :: "int \<Rightarrow> rat" where
  "pow2 k = (if 0 \<le> k then 2 ^ nat k else 1 / 2 ^ nat (- k))"

definition to_double :: "rat \<Rightarrow> number" where
  "to_double x =
     (if x = 0 then Num 0
      else let p = max (floor_log2 x - 52) (- 1074);
               m = round_half_even (x / pow2 p)
           in if 971 < p \<or> (p = 971 \<and> 2 ^ 53 \<le> m) then Infinity
              else Num (of_int m * pow2 p))"

record job =
  status :: job_status
  progress :: number
  "file" :: "string option"
  error :: "string option"
  createdAt :: int

text \<open>
  \<^verbatim>\<open>const jobs: Jobs = {}\<close> is a plain object used as a dictionary. Its own keys are
  enumerated in insertion order (\<^verbatim>\<open>Object.keys\<close>), so the store is an association
  list: \<^verbatim>\<open>jobs[k] = v\<close> is \<open>AList.update\<close> (in place for an existing key, appended
  otherwise), \<^verbatim>\<open>delete jobs[k]\<close> is \<open>AList.delete\<close>, and an own-property read
  is \<open>map_of\<close>.
\<close>

type_synonym jobs = "(string \<times> job) list"

text \<open>
  The download directory, as far as the program looks at it: the names
  \<^verbatim>\<open>fs.readdirSync\<close> returns, in that order; whether \<^verbatim>\<open>readdirSync\<close> succeeds;
  and the names on which \<^verbatim>\<open>fs.unlinkSync\<close> throws (entry busy, no permission,
  a directory).
\<close>

record fs_state =
  listing :: "string list"
  readable :: bool
  undeletable :: "string list"

record world =
  jobs :: jobs
  fs :: fs_state

datatype fs_error = ENOENT | EPERM

definition JOB_CLEANUP_TIME :: int where
  "JOB_CLEANUP_TIME = 60 * 60 * 1000"

section \<open>Progress lines\<close>

text \<open>
  \<^verbatim>\<open>line.match(/(\d+\.\d+)%/)\<close>: without the \<^verbatim>\<open>u\<close> and \<^verbatim>\<open>g\<close> flags, \<^verbatim>\<open>\d\<close> is
  \<^verbatim>\<open>[0-9]\<close> and the result is the leftmost match. At a fixed start position the
  greedy \<^verbatim>\<open>\d+\<close> can only succeed with the whole run of digits (a shorter run is
  followed by a digit, not by the dot or the percent sign), so backtracking never
  finds a match the maximal runs miss. \<open>match_at\<close> is the attempt at one start
  position and returns capture group 1; \<open>line_match\<close> tries the start positions
  from left to right.
\<close>

definition is_digit :: "char \<Rightarrow> bool" where
  "is_digit c = (c \<in> set ''0123456789'')"

definition match_at :: "string \<Rightarrow> string option" where
  "match_at s =
     (let d1 = takeWhile is_digit s; r1 = dropWhile is_digit s in
      if d1 = [] then None
      else case r1 of
        [] \<Rightarrow> None
      | c # r2 \<Rightarrow>
          if c \<noteq> CHR ''.'' then None
          else let d2 = takeWhile is_digit r2; r3 = dropWhile is_digit r2 in
            if d2 = [] then None
            else (case r3 of
                    [] \<Rightarrow> None
                  | p # _ \<Rightarrow> if p = CHR ''%'' then Some (d1 @ ''.'' @ d2) else None))"

fun line_match :: "string \<Rightarrow> string option" where
  "line_match [] = None"
| "line_match (c # cs) =
     (case match_at (c # cs) of Some m \<Rightarrow> Some m | None \<Rightarrow> line_match cs)"

text \<open>
  \<^verbatim>\<open>parseFloat(match[1])\<close>. The capture is always digits, a dot, digits, so only
  that form is read. \<open>decimal_val\<close> is the mathematical value of the literal: the
  integer part plus the fraction digits scaled by their count. \<^verbatim>\<open>parseFloat\<close>
  returns the Number value for it (Node rounds correctly whatever the number of
  digits).
\<close>

definition digit_val :: "char \<Rightarrow> nat" where
  "digit_val c = of_char c - of_char CHR ''0''"

definition digits_val :: "string \<Rightarrow> nat" where
  "digits_val ds = foldl (\<lambda>n c. 10 * n + digit_val c) 0 ds"

definition decimal_val :: "string \<Rightarrow> string \<Rightarrow> rat" where
  "decimal_val d1 d2 = of_nat (digits_val d1) + of_nat (digits_val d2) / 10 ^ length d2"

definition parseFloat :: "string \<Rightarrow> number" where
  "parseFloat s =
     to_double
       (decimal_val (takeWhile is_digit s) (takeWhile is_digit (drop 1 (dropWhile is_digit s))))"

text \<open>
  The parser of the stdout handler as one function: the value the handler would
  store for a line, or nothing when the pattern does not occur.
\<close>

definition ProgressParser_parse :: "string \<Rightarrow> number option" where
  "ProgressParser_parse line = map_option parseFloat (line_match line)"

text \<open>
  The specification's wording: the line contains a decimal number (digits, a dot,
  digits) immediately followed by a percent sign.
\<close>

definition digit_string :: "string \<Rightarrow> bool" where
  "digit_string ds = (ds \<noteq> [] \<and> list_all is_digit ds)"

definition percent_at :: "string \<Rightarrow> string \<Rightarrow> string \<Rightarrow> string \<Rightarrow> string \<Rightarrow> bool" where
  "percent_at line pre d1 d2 post =
     (line = pre @ d1 @ ''.'' @ d2 @ ''%'' @ post \<and> digit_string d1 \<and> digit_string d2)"

section \<open>Job creation and the callbacks of the download process\<close>

text \<open>
  From the handler of \<^verbatim>\<open>POST /api/media/download\<close>. In these closures \<^verbatim>\<open>jobId\<close>
  is the value of \<^verbatim>\<open>uuid()\<close> (36 characters, hexadecimal digits and dashes), never
  the name of a property of \<^verbatim>\<open>Object.prototype\<close>, so \<^verbatim>\<open>jobs[jobId]\<close> reads an own
  property: \<open>map_of\<close>. Every callback runs to completion before another one
  starts, so a callback is a function from store to store; to see the single
  assignments, each callback also lists the stores it goes through, one per
  assignment, and its result is the last of them.
\<close>

definition has_job :: "world \<Rightarrow> string \<Rightarrow> bool" where
  "has_job w jobId = (map_of (jobs w) jobId \<noteq> None)"

text \<open>\<^verbatim>\<open>jobs[jobId].field = v\<close>; every occurrence is guarded by \<^verbatim>\<open>if (jobs[jobId])\<close>.\<close>

definition assign :: "string \<Rightarrow> (job \<Rightarrow> job) \<Rightarrow> world \<Rightarrow> world" where
  "assign jobId f w =
     (case map_of (jobs w) jobId of
        None \<Rightarrow> w
      | Some j \<Rightarrow> w\<lparr>jobs := AList.update jobId (f j) (jobs w)\<rparr>)"

definition submit :: "string \<Rightarrow> int \<Rightarrow> world \<Rightarrow> world" where
  "submit jobId now w =
     w\<lparr>jobs := AList.update jobId
        \<lparr>status = Downloading, progress = Num 0, file = None, error = None, createdAt = now\<rparr>
        (jobs w)\<rparr>"

definition on_stdout_steps :: "string \<Rightarrow> string \<Rightarrow> world \<Rightarrow> world list" where
  "on_stdout_steps jobId line w =
     (case line_match line of
        None \<Rightarrow> []
      | Some m \<Rightarrow>
          if has_job w jobId then [assign jobId (\<lambda>j. j\<lparr>progress := parseFloat m\<rparr>) w] else [])"

definition on_stdout :: "string \<Rightarrow> string \<Rightarrow> world \<Rightarrow> world" where
  "on_stdout jobId line w = last (w # on_stdout_steps jobId line w)"

definition on_error_steps :: "string \<Rightarrow> world \<Rightarrow> world list" where
  "on_error_steps jobId w =
     (if has_job w jobId then
        (let w1 = assign jobId (\<lambda>j. j\<lparr>status := Error\<rparr>) w;
             w2 = assign jobId (\<lambda>j. j\<lparr>error := Some ''Download process failed''\<rparr>) w1
         in [w1, w2])
      else [])"

definition on_error :: "string \<Rightarrow> world \<Rightarrow> world" where
  "on_error jobId w = last (w # on_error_steps jobId w)"

text \<open>
  The \<^verbatim>\<open>close\<close> event carries the exit code, or \<^verbatim>\<open>null\<close> (here \<open>None\<close>) when the
  process was ended by a signal; \<^verbatim>\<open>code !== 0\<close> holds for \<^verbatim>\<open>null\<close> too.
  \<open>settle_scheduled\<close> says whether the callback reaches \<^verbatim>\<open>setTimeout(..., 1000)\<close>.
\<close>

definition on_close_steps :: "string \<Rightarrow> int option \<Rightarrow> world \<Rightarrow> world list" where
  "on_close_steps jobId code w =
     (if \<not> has_job w jobId then []
      else if code \<noteq> Some 0 then
        (let w1 = assign jobId (\<lambda>j. j\<lparr>status := Error\<rparr>) w;
             w2 = assign jobId (\<lambda>j. j\<lparr>error := Some ''Download failed''\<rparr>) w1
         in [w1, w2])
      else [])"

definition on_close :: "string \<Rightarrow> int option \<Rightarrow> world \<Rightarrow> world" where
  "on_close jobId code w = last (w # on_close_steps jobId code w)"

definition settle_scheduled :: "string \<Rightarrow> int option \<Rightarrow> world \<Rightarrow> bool" where
  "settle_scheduled jobId code w = (has_job w jobId \<and> code = Some 0)"

text \<open>The body of the timer callback: the directory scan and the final status.\<close>

definition readdirSync :: "fs_state \<Rightarrow> fs_error + string list" where
  "readdirSync f = (if readable f then Inr (listing f) else Inl ENOENT)"

definition startsWith :: "string \<Rightarrow> string \<Rightarrow> bool" where
  "startsWith f p = (take (length p) f = p)"

text \<open>\<^verbatim>\<open>file || null\<close> and \<^verbatim>\<open>!file\<close>: \<^verbatim>\<open>undefined\<close> and the empty string are falsy.\<close>

definition truthy :: "string option \<Rightarrow> bool" where
  "truthy s = (case s of None \<Rightarrow> False | Some x \<Rightarrow> x \<noteq> [])"

definition on_settle_steps :: "string \<Rightarrow> world \<Rightarrow> world list" where
  "on_settle_steps jobId w =
     (case readdirSync (fs w) of
        Inr files \<Rightarrow>
          (let found = find (\<lambda>f. startsWith f jobId) files in
           if has_job w jobId then
             (let w1 = assign jobId (\<lambda>j. j\<lparr>status := Completed\<rparr>) w;
                  w2 = assign jobId (\<lambda>j. j\<lparr>progress := Num 100\<rparr>) w1;
                  w3 = assign jobId (\<lambda>j. j\<lparr>file := (if truthy found then found else None)\<rparr>) w2
              in if \<not> truthy found then
                   (let w4 = assign jobId (\<lambda>j. j\<lparr>status := Error\<rparr>) w3;
                        w5 = assign jobId (\<lambda>j. j\<lparr>error := Some ''File not found after download''\<rparr>) w4
                    in [w1, w2, w3, w4, w5])
                 else [w1, w2, w3])
           else [])
      | Inl e \<Rightarrow>
          if has_job w jobId then
            (let w1 = assign jobId (\<lambda>j. j\<lparr>status := Error\<rparr>) w;
                 w2 = assign jobId (\<lambda>j. j\<lparr>error := Some ''Failed to locate downloaded file''\<rparr>) w1
             in [w1, w2])
          else [])"

definition on_settle :: "string \<Rightarrow> world \<Rightarrow> world" where
  "on_settle jobId w = last (w # on_settle_steps jobId w)"

section \<open>The progress query (GET /api/media/progress/:jobId)\<close>

text \<open>
  Here \<^verbatim>\<open>jobId\<close> is the route parameter, any string the client sends. The read
  \<^verbatim>\<open>jobs[jobId]\<close> on the plain object \<^verbatim>\<open>{}\<close> follows the prototype chain: a name that
  is no own key but a property of \<^verbatim>\<open>Object.prototype\<close> yields that property (a
  function, or the prototype object for \<^verbatim>\<open>__proto__\<close>), which is truthy and whose
  \<^verbatim>\<open>status\<close> and \<^verbatim>\<open>progress\<close> are \<^verbatim>\<open>undefined\<close>.
\<close>

definition object_prototype_keys :: "string list" where
  "object_prototype_keys =
     [''constructor'', ''__proto__'', ''hasOwnProperty'', ''isPrototypeOf'',
      ''propertyIsEnumerable'', ''toLocaleString'', ''toString'', ''valueOf'',
      ''__defineGetter__'', ''__defineSetter__'', ''__lookupGetter__'', ''__lookupSetter__'']"

datatype property = Own job | Inherited | Undefined

definition jobs_get :: "jobs \<Rightarrow> string \<Rightarrow> property" where
  "jobs_get al k =
     (case map_of al k of
        Some j \<Rightarrow> Own j
      | None \<Rightarrow> if k \<in> set object_prototype_keys then Inherited else Undefined)"

text \<open>
  The four responses of the handler: 404 with \<^verbatim>\<open>success: false\<close>; \<^verbatim>\<open>success: true\<close>
  with status completed, a progress and \<^verbatim>\<open>file_url\<close>; \<^verbatim>\<open>success: false\<close> with status
  error, the progress and the error text; \<^verbatim>\<open>success: true\<close> with the status and the
  progress read from the record (\<open>None\<close> for \<^verbatim>\<open>undefined\<close>, which the JSON omits).
\<close>

datatype response =
    NotFound
  | CompletedResp number string
  | ErrorResp number string
  | StatusResp "job_status option" "number option"

definition file_url :: "string option \<Rightarrow> string" where
  "file_url f = ''http://localhost:3000/downloads/'' @ (case f of None \<Rightarrow> ''null'' | Some n \<Rightarrow> n)"

definition fetchProgress :: "string \<Rightarrow> world \<Rightarrow> response \<times> world" where
  "fetchProgress jobId w =
     (case jobs_get (jobs w) jobId of
        Undefined \<Rightarrow> (NotFound, w)
      | Inherited \<Rightarrow> (StatusResp None None, w)
      | Own j \<Rightarrow>
          if status j = Completed then (CompletedResp (Num 100) (file_url (file j)), w)
          else if status j = Error then
            (ErrorResp (progress j)
               (case error j of
                  None \<Rightarrow> ''Unknown error''
                | Some e \<Rightarrow> if e = [] then ''Unknown error'' else e), w)
          else (StatusResp (Some (status j)) (Some (progress j)), w))"

section \<open>The retention sweep (the setInterval callback)\<close>

definition existsSync :: "fs_state \<Rightarrow> string \<Rightarrow> bool" where
  "existsSync f name = (name \<in> set (listing f))"

definition unlinkSync :: "fs_state \<Rightarrow> string \<Rightarrow> fs_error + fs_state" where
  "unlinkSync f name =
     (if name \<notin> set (listing f) then Inl ENOENT
      else if name \<in> set (undeletable f) then Inl EPERM
      else Inr (f\<lparr>listing := removeAll name (listing f)\<rparr>))"

text \<open>\<^verbatim>\<open>if (job.file) { if (fs.existsSync(filePath)) fs.unlinkSync(filePath); }\<close>\<close>

definition delete_backing_file :: "job \<Rightarrow> fs_state \<Rightarrow> fs_error + fs_state" where
  "delete_backing_file j f =
     (case file j of
        None \<Rightarrow> Inr f
      | Some n \<Rightarrow>
          if n = [] then Inr f
          else if existsSync f n then unlinkSync f n
          else Inr f)"

definition expired :: "int \<Rightarrow> job \<Rightarrow> bool" where
  "expired now j = (now - createdAt j > JOB_CLEANUP_TIME)"

text \<open>
  The body of \<^verbatim>\<open>forEach\<close> for one key. There is no \<^verbatim>\<open>try\<close> in the callback: an
  exception of \<^verbatim>\<open>unlinkSync\<close> leaves the body, the loop and the callback; \<open>Inl\<close>
  carries it together with the store as it is at that moment.
\<close>

definition cleanup_job :: "int \<Rightarrow> string \<Rightarrow> world \<Rightarrow> (fs_error \<times> world) + world" where
  "cleanup_job now jobId w =
     (case map_of (jobs w) jobId of
        None \<Rightarrow> Inr w
      | Some j \<Rightarrow>
          if expired now j then
            (case delete_backing_file j (fs w) of
               Inl e \<Rightarrow> Inl (e, w)
             | Inr f' \<Rightarrow> Inr \<lparr>jobs = AList.delete jobId (jobs w), fs = f'\<rparr>)
          else Inr w)"

fun cleanup_loop :: "int \<Rightarrow> string list \<Rightarrow> world \<Rightarrow> (fs_error \<times> world) + world" where
  "cleanup_loop now [] w = Inr w"
| "cleanup_loop now (k # ks) w =
     (case cleanup_job now k w of
        Inl x \<Rightarrow> Inl x
      | Inr w' \<Rightarrow> cleanup_loop now ks w')"

definition cleanup :: "int \<Rightarrow> world \<Rightarrow> (fs_error \<times> world) + world" where
  "cleanup now w = cleanup_loop now (map fst (jobs w)) w"

text \<open>The store after the callback, however it ended.\<close>

definition outcome_world :: "(fs_error \<times> world) + world \<Rightarrow> world" where
  "outcome_world r = (case r of Inl (e, w') \<Rightarrow> w' | Inr w' \<Rightarrow> w')"

definition after_cleanup :: "int \<Rightarrow> world \<Rightarrow> world" where
  "after_cleanup now w = outcome_world (cleanup now w)"

text \<open>
  Vocabulary for the sweep. \<open>backing_file\<close> is the name the test \<^verbatim>\<open>if (job.file)\<close>
  lets through. A key is \<open>blocked\<close> when its record is expired and its backing file
  is in the directory but cannot be unlinked; \<open>deletion_fails\<close> says that some key of
  the store is. \<open>expired_files\<close> are the backing files recorded by expired jobs.
\<close>

definition backing_file :: "job \<Rightarrow> string option" where
  "backing_file j = (case file j of None \<Rightarrow> None | Some n \<Rightarrow> if n = [] then None else Some n)"

definition blocked :: "int \<Rightarrow> world \<Rightarrow> string \<Rightarrow> bool" where
  "blocked now w k =
     (case map_of (jobs w) k of
        None \<Rightarrow> False
      | Some j \<Rightarrow>
          expired now j \<and>
          (case backing_file j of
             None \<Rightarrow> False
           | Some n \<Rightarrow> n \<in> set (listing (fs w)) \<and> n \<in> set (undeletable (fs w))))"

definition deletion_fails :: "int \<Rightarrow> world \<Rightarrow> bool" where
  "deletion_fails now w = list_ex (blocked now w) (map fst (jobs w))"

definition removed_by :: "int \<Rightarrow> world \<Rightarrow> string \<Rightarrow> string option" where
  "removed_by now w k =
     (case map_of (jobs w) k of
        None \<Rightarrow> None
      | Some j \<Rightarrow> if expired now j then backing_file j else None)"

definition expired_files_of :: "int \<Rightarrow> world \<Rightarrow> string list \<Rightarrow> string list" where
  "expired_files_of now w ks = List.map_filter (removed_by now w) ks"

definition expired_files :: "int \<Rightarrow> world \<Rightarrow> string list" where
  "expired_files now w = expired_files_of now w (map fst (jobs w))"

section \<open>Runs of the server\<close>

text \<open>
  What can happen to the store: a submission, a chunk of output of a job's process,
  its \<^verbatim>\<open>error\<close> and \<^verbatim>\<open>close\<close> events, the timer of the file discovery, a sweep at
  some time, a progress query, and a change of the directory by the download tool
  or anything else. \<open>steps\<close> lists the stores an event goes through, assignment by
  assignment; \<open>trace\<close> does so for a sequence of events. The events may come in any
  order, which covers every order the runtime can produce. After a sweep that threw,
  a run goes on from the store as it was at the throw; the server process itself
  ends on an uncaught exception, so this only adds runs.
\<close>

datatype event =
    Submit string int
  | Stdout string string
  | ProcError string
  | Close string "int option"
  | Settle string
  | Sweep int
  | Fetch string
  | Env fs_state

fun steps :: "event \<Rightarrow> world \<Rightarrow> world list" where
  "steps (Submit jobId now) w = [submit jobId now w]"
| "steps (Stdout jobId line) w = on_stdout_steps jobId line w"
| "steps (ProcError jobId) w = on_error_steps jobId w"
| "steps (Close jobId code) w = on_close_steps jobId code w"
| "steps (Settle jobId) w = on_settle_steps jobId w"
| "steps (Sweep now) w = [after_cleanup now w]"
| "steps (Fetch jobId) w = [snd (fetchProgress jobId w)]"
| "steps (Env f) w = [w\<lparr>fs := f\<rparr>]"

definition step :: "event \<Rightarrow> world \<Rightarrow> world" where
  "step e w = last (w # steps e w)"

fun trace :: "event list \<Rightarrow> world \<Rightarrow> world list" where
  "trace [] w = []"
| "trace (e # es) w = steps e w @ trace es (step e w)"

definition run :: "event list \<Rightarrow> world \<Rightarrow> world" where
  "run es w = last (w # trace es w)"

definition initial :: "fs_state \<Rightarrow> world" where
  "initial f = \<lparr>jobs = [], fs = f\<rparr>"

text \<open>The position of a status in the chain of the specification.\<close>

fun rank :: "job_status \<Rightarrow> nat" where
  "rank Pending = 0"
| "rank Downloading = 1"
| "rank Processing = 2"
| "rank Completed = 3"
| "rank Error = 3"

definition status_of :: "world \<Rightarrow> string \<Rightarrow> job_status option" where
  "status_of w jobId = map_option status (map_of (jobs w) jobId)"

text \<open>
  Queries interleaved with output lines: the progress a query reports before the
  first line and after each line.
\<close>

fun resp_progress :: "response \<Rightarrow> number option" where
  "resp_progress NotFound = None"
| "resp_progress (CompletedResp p u) = Some p"
| "resp_progress (ErrorResp p e) = Some p"
| "resp_progress (StatusResp s p) = p"

fun observations :: "string \<Rightarrow> string list \<Rightarrow> world \<Rightarrow> number option list" where
  "observations jobId [] w = [resp_progress (fst (fetchProgress jobId w))]"
| "observations jobId (l # ls) w =
     resp_progress (fst (fetchProgress jobId w)) # observations jobId ls (on_stdout jobId l w)"

text \<open>
  What the queries of \<open>observations\<close> should show if each one reports the percentage of
  the latest matching line: the value \<open>p\<close> before the first line, then after each
  line the parsed value, or the previous one when the line does not match.
\<close>

fun latest_reported :: "number \<Rightarrow> string list \<Rightarrow> number list" where
  "latest_reported p [] = [p]"
| "latest_reported p (l # ls) =
     p # latest_reported (case ProgressParser_parse l of None \<Rightarrow> p | Some v \<Rightarrow> v) ls"

text \<open>
  Between two stores, the record of \<open>k\<close> (if still there) has the status it had or one
  of the statuses in \<open>S\<close>.
\<close>

definition keeps_or_writes :: "job_status set \<Rightarrow> string \<Rightarrow> world \<Rightarrow> world \<Rightarrow> bool" where
  "keeps_or_writes S k w w' =
     (case map_of (jobs w') k of
        None \<Rightarrow> True
      | Some j' \<Rightarrow> status j' \<in> S \<or> status_of w k = Some (status j'))"

definition error_of :: "world \<Rightarrow> string \<Rightarrow> string option" where
  "error_of w jobId = Option.bind (map_of (jobs w) jobId) error"

section \<open>The order of numbers\<close>

text \<open>\<^verbatim>\<open>a <= b\<close> on the numbers that occur: \<^verbatim>\<open>Infinity\<close> is above every double.\<close>

instantiation number :: linorder
begin

definition less_eq_number :: "number \<Rightarrow> number \<Rightarrow> bool" where
  "less_eq_number a b =
     (case b of
        Infinity \<Rightarrow> True
      | Num y \<Rightarrow> (case a of Infinity \<Rightarrow> False | Num x \<Rightarrow> x \<le> y))"

definition less_number :: "number \<Rightarrow> number \<Rightarrow> bool" where
  "less_number a b = (a \<le> b \<and> \<not> b \<le> a)"

instance
  by standard (auto simp: less_eq_number_def less_number_def split: number.splits)

end

section \<open>Example stores\<close>

text \<open>
  A finished job \<open>a\<close> with its file and a running job \<open>b\<close> whose file is being
  written; in \<open>store_locked\<close> the file of \<open>a\<close> cannot be unlinked.
\<close>

definition job_a :: job where
  "job_a = \<lparr>status = Completed, progress = Num 100, file = Some ''a.mp4'', error = None,
            createdAt = 1000\<rparr>"

definition job_b :: job where
  "job_b = \<lparr>status = Downloading, progress = Num 0, file = None, error = None, createdAt = 2000\<rparr>"

definition dir_ab :: fs_state where
  "dir_ab = \<lparr>listing = [''a.mp4'', ''b.webm''], readable = True, undeletable = []\<rparr>"

definition store_ab :: world where
  "store_ab = \<lparr>jobs = [(''a'', job_a), (''b'', job_b)], fs = dir_ab\<rparr>"

definition store_locked :: world where
  "store_locked = store_ab\<lparr>fs := dir_ab\<lparr>undeletable := [''a.mp4'']\<rparr>\<rparr>"

section \<open>Numbers\<close>

lemma Num_le_iff [simp]:
  "Num x \<le> Num y \<longleftrightarrow> x \<le> y" "Num x \<le> Infinity" "\<not> Infinity \<le> Num y"
  by (simp_all add: less_eq_number_def)

lemma floor_rat_numeral [simp]:
  "\<lfloor>(numeral a :: rat) / numeral b\<rfloor> = numeral a div numeral b"
  by (metis floor_divide_of_int_eq of_int_numeral)

lemma ceiling_rat_numeral [simp]:
  "\<lceil>(numeral a :: rat) / numeral b\<rceil> = - ((- numeral a) div numeral b)"
  by (metis ceiling_def floor_divide_of_int_eq minus_divide_left of_int_minus of_int_numeral)

lemmas double_eval =
  to_double_def floor_log2_def compute_floorlog round_half_even_def pow2_def Let_def

text \<open>
  Some values: exact for the integers the program meets, the usual double for 12.3
  and 0.1, the tie \<open>2 ^ 53 + 1\<close> to the even neighbour below and \<open>2 ^ 53 + 3\<close> to the
  even neighbour above.
\<close>

lemma to_double_exact [simp]:
  "to_double 10 = Num 10" "to_double 50 = Num 50" "to_double 100 = Num 100"
  by (simp_all add: double_eval)

lemma to_double_12_3: "to_double (123 / 10) = Num (3462142213541069 / 281474976710656)"
  by (simp add: double_eval)

lemma to_double_0_1: "to_double (1 / 10) = Num (3602879701896397 / 36028797018963968)"
  by (simp add: double_eval)

lemma to_double_ties:
  "to_double 9007199254740993 = Num 9007199254740992"
  "to_double 9007199254740995 = Num 9007199254740996"
  by (simp_all add: double_eval)

text \<open>
  \<open>to_double\<close> rounds to nearest. \<open>floor_log2\<close> is the binary exponent; the result is
  a multiple \<open>m * 2 ^ p\<close> of the spacing of the doubles at \<open>x\<close> with at most 53
  significant bits, and no multiple of that spacing is closer to \<open>x\<close>. A finite
  result is below \<open>2 ^ 1024\<close>, and the result is \<^verbatim>\<open>Infinity\<close> exactly from
  \<open>2 ^ 1024 - 2 ^ 970\<close> on, as for a number of 400 digits.
\<close>

lemma pow2_pos [simp]: "0 < pow2 k"
  by (simp add: pow2_def)

lemma pow2_nonzero [simp]: "pow2 k \<noteq> 0"
  by (simp add: pow2_def)

lemma pow2_nonneg [simp]: "0 \<le> pow2 k"
  by (simp add: pow2_def)

lemma pow2_nat: "pow2 (int n) = 2 ^ n"
  by (simp add: pow2_def)

lemma pow2_neg_nat: "pow2 (- int n) = 1 / 2 ^ n"
  by (auto simp: pow2_def)

lemma floor_log2_bounds:
  assumes "0 < x"
  shows "pow2 (floor_log2 x) \<le> x \<and> x < pow2 (floor_log2 x + 1)"
proof (cases "1 \<le> x")
  case True
  define n where "n = nat \<lfloor>x\<rfloor>"
  define k where "k = floorlog 2 n"
  from True have n: "0 < n" "of_nat n \<le> x" "x < of_nat n + 1"
    by (auto simp: n_def of_nat_nat) linarith+
  from floorlog_bounds [of n 2] n(1) have b: "2 ^ (k - 1) \<le> n" "n < 2 ^ k"
    by (auto simp: k_def)
  from n(1) have "floorlog 2 n \<noteq> 0" by (simp add: floorlog_eq_zero_iff)
  then have k: "0 < k" by (simp add: k_def)
  have e: "floor_log2 x = int (k - 1)" using True k by (simp add: floor_log2_def n_def k_def)
  have "pow2 (floor_log2 x) = of_nat (2 ^ (k - 1))" by (simp add: e pow2_nat)
  also have "\<dots> \<le> of_nat n" using b(1) by (simp only: of_nat_le_iff)
  finally have lo: "pow2 (floor_log2 x) \<le> x" using n(2) by simp
  have "floor_log2 x + 1 = int k" using k by (simp add: e)
  then have "pow2 (floor_log2 x + 1) = of_nat (2 ^ k)" by (simp add: pow2_nat)
  moreover have "of_nat n + 1 \<le> (of_nat (2 ^ k) :: rat)"
  proof -
    from b(2) have "n + 1 \<le> 2 ^ k" by simp
    then have "(of_nat (n + 1) :: rat) \<le> of_nat (2 ^ k)" by (simp only: of_nat_le_iff)
    then show ?thesis by simp
  qed
  ultimately have "x < pow2 (floor_log2 x + 1)" using n(3) by simp
  with lo show ?thesis by simp
next
  case False
  define r where "r = 1 / x"
  define n where "n = nat (\<lceil>r\<rceil> - 1)"
  define k where "k = floorlog 2 n"
  from False assms have r: "1 < r" by (simp add: r_def)
  then have c: "2 \<le> \<lceil>r\<rceil>" by linarith
  then have n: "0 < n" "of_nat n < r" "r \<le> of_nat n + 1"
    by (auto simp: n_def of_nat_nat) linarith+
  from floorlog_bounds [of n 2] n(1) have b: "2 ^ (k - 1) \<le> n" "n < 2 ^ k"
    by (auto simp: k_def)
  from n(1) have "floorlog 2 n \<noteq> 0" by (simp add: floorlog_eq_zero_iff)
  then have k: "0 < k" by (simp add: k_def)
  have e: "floor_log2 x = - int k" using False by (simp add: floor_log2_def n_def k_def r_def)
  have "r \<le> of_nat (2 ^ k)"
  proof -
    from b(2) have "n + 1 \<le> 2 ^ k" by simp
    then have "(of_nat (n + 1) :: rat) \<le> of_nat (2 ^ k)" by (simp only: of_nat_le_iff)
    with n(3) show ?thesis by simp
  qed
  then have "1 / x \<le> 2 ^ k" by (simp add: r_def)
  with assms have lo: "1 / 2 ^ k \<le> x" by (simp add: field_simps)
  have "(of_nat (2 ^ (k - 1)) :: rat) \<le> of_nat n" using b(1) by (simp only: of_nat_le_iff)
  then have "(2 ^ (k - 1) :: rat) \<le> of_nat n" by simp
  with n(2) have "2 ^ (k - 1) < 1 / x" unfolding r_def by linarith
  with assms have hi: "x < 1 / 2 ^ (k - 1)" by (simp add: field_simps)
  have "floor_log2 x + 1 = - int (k - 1)" using k by (simp add: e)
  then have "pow2 (floor_log2 x + 1) = 1 / 2 ^ (k - 1)" by (simp add: pow2_neg_nat)
  with lo hi e show ?thesis by (simp add: pow2_neg_nat)
qed

lemma round_half_even_near: "\<bar>of_int (round_half_even y) - y\<bar> \<le> 1 / 2"
  unfolding round_half_even_def Let_def by (auto simp: abs_if) linarith+

lemma round_half_even_nearest:
  "\<bar>of_int (round_half_even y) - y\<bar> \<le> \<bar>of_int k - y\<bar>"
proof (cases "k = round_half_even y")
  case True
  then show ?thesis by simp
next
  case False
  then have "1 \<le> \<bar>k - round_half_even y\<bar>" by linarith
  then have "(1 :: rat) \<le> \<bar>of_int k - of_int (round_half_even y)\<bar>"
    by (metis of_int_1 of_int_abs of_int_diff of_int_le_iff)
  with round_half_even_near [of y] show ?thesis by linarith
qed


lemma abs_scale_pow2: "\<bar>a * pow2 p - y * pow2 p\<bar> = \<bar>a - y\<bar> * pow2 p"
proof -
  have "a * pow2 p - y * pow2 p = (a - y) * pow2 p" by (simp add: algebra_simps)
  then show ?thesis by (simp add: abs_mult abs_of_pos)
qed

lemma pow2_powi: "pow2 k = 2 powi k"
  by (simp add: pow2_def power_int_def inverse_eq_divide power_one_over)

lemma to_double_nearest:
  assumes "0 < x" and "to_double x = Num v"
  shows "\<exists>m. v = of_int m * pow2 (max (floor_log2 x - 52) (- 1074))
           \<and> 0 \<le> m \<and> m \<le> 2 ^ 53
           \<and> (\<forall>k. \<bar>v - x\<bar> \<le> \<bar>of_int k * pow2 (max (floor_log2 x - 52) (- 1074)) - x\<bar>)"
proof -
  define p where "p = max (floor_log2 x - 52) (- 1074)"
  define y where "y = x / pow2 p"
  define m where "m = round_half_even y"
  from assms have v: "v = of_int m * pow2 p"
    by (auto simp: to_double_def Let_def p_def y_def m_def split: if_splits)
  have x: "x = y * pow2 p" by (simp add: y_def)
  have y0: "0 < y" using assms(1) by (simp add: y_def)
  have near: "\<bar>v - x\<bar> \<le> \<bar>of_int k * pow2 p - x\<bar>" for k
  proof -
    have "\<bar>v - x\<bar> = \<bar>of_int m - y\<bar> * pow2 p"
      unfolding v x by (rule abs_scale_pow2)
    also have "\<dots> \<le> \<bar>of_int k - y\<bar> * pow2 p"
      using round_half_even_nearest [of y k] by (simp add: m_def)
    also have "\<dots> = \<bar>of_int k * pow2 p - x\<bar>"
      unfolding x by (rule abs_scale_pow2 [symmetric])
    finally show ?thesis .
  qed
  have m0: "0 \<le> m"
  proof -
    from round_half_even_near [of y] have "y - 1 / 2 \<le> of_int m"
      unfolding m_def by linarith
    with y0 have "(of_int (- 1) :: rat) < of_int m" by simp
    then have "- 1 < m" by (simp only: of_int_less_iff)
    then show ?thesis by simp
  qed
  have "y < 2 ^ 53"
  proof -
    have "x < pow2 (floor_log2 x + 1)" using floor_log2_bounds [OF assms(1)] by simp
    also have "pow2 (floor_log2 x + 1) \<le> pow2 (p + 53)"
      unfolding pow2_powi by (rule power_int_increasing) (simp_all add: p_def)
    also have "pow2 (p + 53) = pow2 p * 2 ^ 53"
      unfolding pow2_powi by (simp add: power_int_add)
    finally show ?thesis by (simp add: y_def field_simps)
  qed
  moreover from round_half_even_near [of y] have "of_int m \<le> y + 1 / 2"
    unfolding m_def by linarith
  ultimately have "of_int m < (2 ^ 53 + 1 :: rat)" by simp
  then have "(of_int m :: rat) < of_int (2 ^ 53 + 1)" by simp
  then have "m < 2 ^ 53 + 1" by (simp only: of_int_less_iff)
  then have "m \<le> 2 ^ 53" by simp
  with v m0 near show ?thesis unfolding p_def by blast
qed

lemma to_double_finite:
  assumes "to_double x = Num v"
  shows "v < 2 ^ 1024"
proof (cases "x = 0")
  case True
  with assms show ?thesis by (simp add: to_double_def)
next
  case False
  define p where "p = max (floor_log2 x - 52) (- 1074)"
  define m where "m = round_half_even (x / pow2 p)"
  from assms False have v: "v = of_int m * pow2 p"
    and c: "\<not> 971 < p" "p = 971 \<longrightarrow> m < 2 ^ 53"
    by (auto simp: to_double_def Let_def p_def m_def split: if_splits)
  show ?thesis
  proof (cases "p = 971")
    case True
    with c(2) have "m < 2 ^ 53" by simp
    then have "(of_int m :: rat) < of_int (2 ^ 53)" by (simp only: of_int_less_iff)
    then have "of_int m * pow2 971 < (2 ^ 53 :: rat) * pow2 971" by simp
    with True v show ?thesis by (simp add: pow2_def)
  next
    case False
    with c(1) have p: "p \<le> 970" by simp
    show ?thesis
    proof (cases "m \<le> 0")
      case True
      then have "(of_int m :: rat) \<le> 0" by simp
      then have "of_int m * pow2 p \<le> 0"
        by (rule mult_nonpos_nonneg) (simp add: less_imp_le)
      with v show ?thesis by simp
    next
      case m: False
      have "x \<noteq> 0" by fact
      have "pow2 p \<le> pow2 970" unfolding pow2_powi by (rule power_int_increasing) (use p in simp_all)
      moreover have mb: "m \<le> 2 ^ 53"
      proof (rule ccontr)
        assume "\<not> m \<le> 2 ^ 53"
        then have big: "2 ^ 53 + 1 \<le> m" by simp
        have xpos: "0 < x"
        proof (rule ccontr)
          assume "\<not> 0 < x"
          with \<open>x \<noteq> 0\<close> have "x / pow2 p < 0" by (simp add: divide_neg_pos)
          moreover from round_half_even_near [of "x / pow2 p"]
          have "of_int m \<le> x / pow2 p + 1 / 2" unfolding m_def by linarith
          ultimately have "(of_int m :: rat) < of_int 1" by simp
          then have "m < 1" by (simp only: of_int_less_iff)
          with m show False by simp
        qed
        from to_double_nearest [OF xpos assms] obtain m' where
          "v = of_int m' * pow2 (max (floor_log2 x - 52) (- 1074))" "m' \<le> 2 ^ 53"
          by blast
        with v have "of_int m * pow2 p = (of_int m' :: rat) * pow2 p" by (simp add: p_def)
        then have "m = m'" by simp
        with \<open>m' \<le> 2 ^ 53\<close> big show False by simp
      qed
      ultimately have "of_int m * pow2 p \<le> (2 ^ 53 :: rat) * pow2 970"
      proof -
        from mb have "(of_int m :: rat) \<le> of_int (2 ^ 53)" by (simp only: of_int_le_iff)
        then have a: "(of_int m :: rat) \<le> 2 ^ 53" by simp
        from m have "0 \<le> (of_int m :: rat)" by simp
        with a \<open>pow2 p \<le> pow2 970\<close> show ?thesis
          by (intro mult_mono) simp_all
      qed
      with v show ?thesis by (simp add: pow2_def)
    qed
  qed
qed

lemma to_double_Infinity:
  assumes "0 < x" and "to_double x = Infinity"
  shows "2 ^ 1024 - 2 ^ 970 \<le> x"
proof -
  define p where "p = max (floor_log2 x - 52) (- 1074)"
  define m where "m = round_half_even (x / pow2 p)"
  from assms have c: "971 < p \<or> (p = 971 \<and> 2 ^ 53 \<le> m)"
    by (auto simp: to_double_def Let_def p_def m_def split: if_splits)
  then show ?thesis
  proof
    assume "971 < p"
    then have "1024 \<le> floor_log2 x" by (simp add: p_def)
    then have "pow2 1024 \<le> pow2 (floor_log2 x)"
      unfolding pow2_powi by (rule power_int_increasing) simp
    with floor_log2_bounds [OF assms(1)] have "pow2 1024 \<le> x" by simp
    then show ?thesis by (simp add: pow2_def)
  next
    assume a: "p = 971 \<and> 2 ^ 53 \<le> m"
    then have "(of_int (2 ^ 53) :: rat) \<le> of_int m" by (simp only: of_int_le_iff)
    then have "(2 ^ 53 :: rat) \<le> of_int m" by simp
    moreover from round_half_even_near [of "x / pow2 p"]
    have "of_int m \<le> x / pow2 p + 1 / 2" unfolding m_def by linarith
    ultimately have "2 ^ 53 - 1 / 2 \<le> x / pow2 p" by linarith
    with a have "(2 ^ 53 - 1 / 2) * 2 ^ 971 \<le> x" by (simp add: pow2_def field_simps)
    then show ?thesis by simp
  qed
qed

lemma round_half_even_top:
  assumes "2 ^ 53 - 1 / 2 \<le> y"
  shows "2 ^ 53 \<le> round_half_even y"
proof -
  define f where "f = \<lfloor>y\<rfloor>"
  have "(of_int (2 ^ 53 - 1) :: rat) \<le> y" using assms by simp
  then have f: "2 ^ 53 - 1 \<le> f" unfolding f_def by (simp only: le_floor_iff)
  show ?thesis
  proof (cases "f = 2 ^ 53 - 1")
    case True
    then have odd: "\<not> even f" by simp
    from True assms have d: "1 / 2 \<le> y - of_int f" by simp
    from odd d True show ?thesis
      unfolding round_half_even_def Let_def f_def [symmetric] by auto
  next
    case False
    with f have "2 ^ 53 \<le> f" by simp
    then show ?thesis
      unfolding round_half_even_def Let_def f_def [symmetric] by auto
  qed
qed

lemma to_double_Infinity_iff:
  assumes "0 < x"
  shows "to_double x = Infinity \<longleftrightarrow> 2 ^ 1024 - 2 ^ 970 \<le> x"
proof
  assume "to_double x = Infinity"
  with assms show "2 ^ 1024 - 2 ^ 970 \<le> x" by (rule to_double_Infinity)
next
  assume big: "2 ^ 1024 - 2 ^ 970 \<le> x"
  define p where "p = max (floor_log2 x - 52) (- 1074)"
  have e: "1023 \<le> floor_log2 x"
  proof (rule ccontr)
    assume "\<not> 1023 \<le> floor_log2 x"
    then have "floor_log2 x + 1 \<le> 1023" by simp
    then have "pow2 (floor_log2 x + 1) \<le> pow2 1023"
      unfolding pow2_powi by (rule power_int_increasing) simp
    with floor_log2_bounds [OF assms] have "x < pow2 1023" by simp
    with big show False by (simp add: pow2_def)
  qed
  then have p: "971 \<le> p" by (simp add: p_def)
  show "to_double x = Infinity"
  proof (cases "p = 971")
    case True
    from big have "(2 ^ 53 - 1 / 2) * 2 ^ 971 \<le> x" by simp
    then have "2 ^ 53 - 1 / 2 \<le> x / pow2 971" by (simp add: pow2_def field_simps)
    then have "2 ^ 53 \<le> round_half_even (x / pow2 971)" by (rule round_half_even_top)
    with True assms show ?thesis
      by (simp add: to_double_def Let_def p_def [symmetric])
  next
    case False
    with p have "971 < p" by simp
    with assms show ?thesis by (simp add: to_double_def Let_def p_def [symmetric])
  qed
qed

lemma to_double_overflow: "to_double (10 ^ 400 - 1) = Infinity"
  by (simp add: to_double_Infinity_iff)

section \<open>The progress parser finds exactly the decimal percentages\<close>

lemma not_digit_dot_percent [simp]: "\<not> is_digit CHR ''.''" "\<not> is_digit CHR ''%''"
  by (simp_all add: is_digit_def)

lemma match_at_SomeD:
  assumes "match_at s = Some m"
  shows "\<exists>d1 d2 post. percent_at s [] d1 d2 post \<and> m = d1 @ ''.'' @ d2"
proof -
  let ?d1 = "takeWhile is_digit s" and ?r1 = "dropWhile is_digit s"
  from assms have d1: "?d1 \<noteq> []"
    by (auto simp: match_at_def Let_def split: if_splits)
  from assms d1 obtain r2 where r1: "?r1 = CHR ''.'' # r2"
    by (auto simp: match_at_def Let_def split: if_splits list.splits)
  let ?d2 = "takeWhile is_digit r2" and ?r3 = "dropWhile is_digit r2"
  from assms d1 r1 have d2: "?d2 \<noteq> []"
    by (auto simp: match_at_def Let_def split: if_splits list.splits)
  from assms d1 r1 d2 obtain post
    where r3: "?r3 = CHR ''%'' # post" and m: "m = ?d1 @ ''.'' @ ?d2"
    by (auto simp: match_at_def Let_def split: if_splits list.splits)
  have "s = ?d1 @ ?r1" by simp
  also have "?r1 = ''.'' @ r2" using r1 by simp
  also have "r2 = ?d2 @ ?r3" by simp
  also have "?r3 = ''%'' @ post" using r3 by simp
  finally have "s = [] @ ?d1 @ ''.'' @ ?d2 @ ''%'' @ post" by simp
  moreover have "digit_string ?d1" "digit_string ?d2"
    using d1 d2 by (auto simp: digit_string_def list_all_iff dest: set_takeWhileD)
  ultimately show ?thesis using m unfolding percent_at_def by blast
qed

lemma takeWhile_digits:
  "list_all is_digit ds \<Longrightarrow> \<not> is_digit c \<Longrightarrow> takeWhile is_digit (ds @ c # r) = ds"
  by (induction ds) auto

lemma dropWhile_digits:
  "list_all is_digit ds \<Longrightarrow> \<not> is_digit c \<Longrightarrow> dropWhile is_digit (ds @ c # r) = c # r"
  by (induction ds) auto

lemma match_at_SomeI:
  assumes "percent_at s [] d1 d2 post"
  shows "match_at s = Some (d1 @ ''.'' @ d2)"
  using assms
  by (simp add: percent_at_def digit_string_def match_at_def takeWhile_digits dropWhile_digits)

lemma line_match_SomeD:
  "line_match s = Some m \<Longrightarrow>
     \<exists>pre d1 d2 post. percent_at s pre d1 d2 post \<and> m = d1 @ ''.'' @ d2"
proof (induction s)
  case Nil
  then show ?case by simp
next
  case (Cons c cs)
  show ?case
  proof (cases "match_at (c # cs)")
    case (Some m')
    with Cons.prems have "m' = m" by simp
    with Some match_at_SomeD show ?thesis by blast
  next
    case None
    with Cons.prems have "line_match cs = Some m" by simp
    from Cons.IH [OF this] obtain pre d1 d2 post
      where "percent_at cs pre d1 d2 post" "m = d1 @ ''.'' @ d2" by blast
    then have "percent_at (c # cs) (c # pre) d1 d2 post"
      by (simp add: percent_at_def)
    with \<open>m = d1 @ ''.'' @ d2\<close> show ?thesis by blast
  qed
qed

lemma line_match_first:
  "line_match s = Some m \<Longrightarrow>
     \<exists>pre d1 d2 post. percent_at s pre d1 d2 post \<and> m = d1 @ ''.'' @ d2
       \<and> (\<forall>pre' d1' d2' post'. percent_at s pre' d1' d2' post' \<longrightarrow> length pre \<le> length pre')"
proof (induction s)
  case Nil
  then show ?case by simp
next
  case (Cons c cs)
  show ?case
  proof (cases "match_at (c # cs)")
    case (Some m')
    with Cons.prems have "m' = m" by simp
    with Some match_at_SomeD [of "c # cs" m] obtain d1 d2 post
      where "percent_at (c # cs) [] d1 d2 post" "m = d1 @ ''.'' @ d2" by blast
    then show ?thesis by fastforce
  next
    case None
    with Cons.prems have "line_match cs = Some m" by simp
    from Cons.IH [OF this] obtain pre d1 d2 post
      where p: "percent_at cs pre d1 d2 post" and m: "m = d1 @ ''.'' @ d2"
        and least: "\<And>pre' d1' d2' post'. percent_at cs pre' d1' d2' post' \<Longrightarrow>
              length pre \<le> length pre'"
      by blast
    from p have p': "percent_at (c # cs) (c # pre) d1 d2 post"
      by (simp add: percent_at_def)
    have "length (c # pre) \<le> length pre'" if q: "percent_at (c # cs) pre' d1' d2' post'"
      for pre' d1' d2' post'
    proof (cases pre')
      case Nil
      with q match_at_SomeI [of "c # cs" d1' d2' post'] None show ?thesis by simp
    next
      case (Cons a pre'')
      with q have "percent_at cs pre'' d1' d2' post'" by (simp add: percent_at_def)
      from least [OF this] Cons show ?thesis by simp
    qed
    with p' m show ?thesis by blast
  qed
qed


lemma line_match_SomeI:
  "percent_at s pre d1 d2 post \<Longrightarrow> \<exists>m. line_match s = Some m"
proof (induction pre arbitrary: s)
  case Nil
  from match_at_SomeI [OF Nil] have m: "match_at s = Some (d1 @ ''.'' @ d2)" .
  from Nil have "s \<noteq> []" by (auto simp: percent_at_def)
  then obtain c cs where "s = c # cs" by (cases s) auto
  with m show ?case by simp
next
  case (Cons a pre)
  then obtain cs where s: "s = a # cs" and "percent_at cs pre d1 d2 post"
    by (auto simp: percent_at_def)
  from Cons.IH [OF this(2)] obtain m where "line_match cs = Some m" by blast
  with s show ?case by (cases "match_at (a # cs)") auto
qed

lemma parseFloat_capture:
  "digit_string d1 \<Longrightarrow> digit_string d2 \<Longrightarrow>
     parseFloat (d1 @ ''.'' @ d2) = to_double (decimal_val d1 d2)"
  by (simp add: parseFloat_def digit_string_def takeWhile_digits dropWhile_digits
      takeWhile_eq_all_conv[THEN iffD2] list_all_iff)

lemmas parse_eval =
  ProgressParser_parse_def match_at_def is_digit_def parseFloat_def decimal_val_def
  digits_val_def digit_val_def

text \<open>The value is rounded as the runtime does it.\<close>

lemma parse_rounds:
  "ProgressParser_parse ''9007199254740993.0%'' = Some (Num 9007199254740992)"
  by (simp add: parse_eval to_double_ties)

text \<open>
  Claim C5. The parser returns nothing exactly for the lines that contain no
  decimal number (digits, dot, digits) immediately followed by a percent sign;
  when it returns a value, that value is the numeric value of such a number in
  the line, namely of the first one, as a JavaScript number: the double nearest to
  the decimal (\<^verbatim>\<open>Infinity\<close> when it is too large); and the three examples of the
  specification evaluate as stated, to the numbers that the literals 12.3 and 100.0
  denote:
  12.3 for \<^verbatim>\<open>12.3% of 10.5MiB\<close>, nothing for \<^verbatim>\<open>ERROR: no such format\<close>, 100 for
  \<^verbatim>\<open>100.0%\<close>.
\<close>

theorem ProgressParser_parse_spec:
  "(ProgressParser_parse line = None \<longleftrightarrow>
      \<not> (\<exists>pre d1 d2 post. percent_at line pre d1 d2 post))
   \<and> (\<forall>v. ProgressParser_parse line = Some v \<longrightarrow>
        (\<exists>pre d1 d2 post. percent_at line pre d1 d2 post \<and> v = to_double (decimal_val d1 d2)
           \<and> (\<forall>pre' d1' d2' post'. percent_at line pre' d1' d2' post' \<longrightarrow>
                 length pre \<le> length pre')))
   \<and> ProgressParser_parse ''12.3% of 10.5MiB'' = Some (to_double (123 / 10))
   \<and> ProgressParser_parse ''ERROR: no such format'' = None
   \<and> ProgressParser_parse ''100.0%'' = Some (Num 100)"
proof (intro conjI allI impI)
  show "ProgressParser_parse line = None \<longleftrightarrow>
      \<not> (\<exists>pre d1 d2 post. percent_at line pre d1 d2 post)"
  proof
    assume "ProgressParser_parse line = None"
    then have "line_match line = None" by (simp add: ProgressParser_parse_def)
    then show "\<not> (\<exists>pre d1 d2 post. percent_at line pre d1 d2 post)"
      using line_match_SomeI by fastforce
  next
    assume "\<not> (\<exists>pre d1 d2 post. percent_at line pre d1 d2 post)"
    then have "line_match line = None"
      using line_match_SomeD by (cases "line_match line") blast+
    then show "ProgressParser_parse line = None" by (simp add: ProgressParser_parse_def)
  qed
next
  fix v assume "ProgressParser_parse line = Some v"
  then obtain m where m: "line_match line = Some m" and v: "v = parseFloat m"
    by (auto simp: ProgressParser_parse_def)
  from line_match_first [OF m] obtain pre d1 d2 post
    where p: "percent_at line pre d1 d2 post" and "m = d1 @ ''.'' @ d2"
      and least: "\<forall>pre' d1' d2' post'. percent_at line pre' d1' d2' post' \<longrightarrow>
            length pre \<le> length pre'"
    by blast
  with v have "v = to_double (decimal_val d1 d2)"
    using parseFloat_capture [of d1 d2] by (simp add: percent_at_def)
  with p least
  show "\<exists>pre d1 d2 post. percent_at line pre d1 d2 post \<and> v = to_double (decimal_val d1 d2)
           \<and> (\<forall>pre' d1' d2' post'. percent_at line pre' d1' d2' post' \<longrightarrow>
                 length pre \<le> length pre')"
    by blast
next
  show "ProgressParser_parse ''12.3% of 10.5MiB'' = Some (to_double (123 / 10))"
    by (simp add: parse_eval)
  show "ProgressParser_parse ''ERROR: no such format'' = None"
    by (simp add: parse_eval)
  show "ProgressParser_parse ''100.0%'' = Some (Num 100)"
    by (simp add: parse_eval)
qed

theorem ProgressParser_parse_spec_witness:
  "ProgressParser_parse ''[download]  45.6% of 3MiB'' = Some (to_double (228 / 5))
   \<and> (\<exists>pre d1 d2 post. percent_at ''[download]  45.6% of 3MiB'' pre d1 d2 post
        \<and> to_double (228 / 5) = to_double (decimal_val d1 d2))"
proof -
  have e: "ProgressParser_parse ''[download]  45.6% of 3MiB'' = Some (to_double (228 / 5))"
    by (simp add: parse_eval)
  from ProgressParser_parse_spec [of "''[download]  45.6% of 3MiB''"] e
  show ?thesis by blast
qed

section \<open>Assignments to a record\<close>

lemma map_of_assign:
  "map_of (jobs (assign jobId f w)) k =
     (if k = jobId then map_option f (map_of (jobs w) jobId) else map_of (jobs w) k)"
  by (auto simp: assign_def update_conv' split: option.splits)

lemma fs_assign [simp]: "fs (assign jobId f w) = fs w"
  by (simp add: assign_def split: option.splits)

lemma keys_assign [simp]: "map fst (jobs (assign jobId f w)) = map fst (jobs w)"
proof (cases "map_of (jobs w) jobId")
  case None
  then show ?thesis by (simp add: assign_def)
next
  case (Some j)
  then have "jobId \<in> fst ` set (jobs w)" by (auto dest!: map_of_SomeD intro: rev_image_eqI)
  with Some show ?thesis by (simp add: assign_def update_keys)
qed

lemma has_job_assign [simp]: "has_job (assign jobId f w) k = has_job w k"
  by (simp add: has_job_def map_of_assign)

lemma assign_absent: "map_of (jobs w) jobId = None \<Longrightarrow> assign jobId f w = w"
  by (simp add: assign_def)

section \<open>The output handler changes the progress only\<close>

text \<open>
  Claim C6. A chunk of output changes nothing but the \<open>progress\<close> field of the job's
  own record: the directory, the keys of the store and every other record are as
  before; the record keeps its status (so a terminal status set earlier stays), its
  file, its error and its creation time, and its progress becomes the parsed value
  when the line matches; when the record is absent the store is returned as it is,
  and no record is created.
\<close>

theorem on_stdout_frame:
  "fs (on_stdout jobId line w) = fs w
   \<and> map fst (jobs (on_stdout jobId line w)) = map fst (jobs w)
   \<and> (\<forall>k. k \<noteq> jobId \<longrightarrow> map_of (jobs (on_stdout jobId line w)) k = map_of (jobs w) k)
   \<and> (map_of (jobs w) jobId = None \<longrightarrow> on_stdout jobId line w = w)
   \<and> (\<forall>j. map_of (jobs w) jobId = Some j \<longrightarrow>
         map_of (jobs (on_stdout jobId line w)) jobId =
           Some (j\<lparr>progress := (case ProgressParser_parse line of None \<Rightarrow> progress j | Some v \<Rightarrow> v)\<rparr>))"
  by (auto simp: on_stdout_def on_stdout_steps_def map_of_assign has_job_def
      ProgressParser_parse_def split: option.splits)

theorem on_stdout_frame_witness:
  "map_of (jobs (on_stdout ''a'' ''[download]  45.6% of 3MiB'' store_ab)) ''a'' =
      Some (job_a\<lparr>progress := to_double (228 / 5)\<rparr>)
   \<and> map_of (jobs (on_stdout ''a'' ''[download]  45.6% of 3MiB'' store_ab)) ''b'' = Some job_b
   \<and> on_stdout ''c'' ''[download]  45.6% of 3MiB'' store_ab = store_ab"
proof -
  have e: "ProgressParser_parse ''[download]  45.6% of 3MiB'' = Some (to_double (228 / 5))"
    by (simp add: parse_eval)
  have a: "map_of (jobs store_ab) ''a'' = Some job_a" "map_of (jobs store_ab) ''b'' = Some job_b"
     "map_of (jobs store_ab) ''c'' = None"
    by (simp_all add: store_ab_def)
  from on_stdout_frame [of "''a''" "''[download]  45.6% of 3MiB''" store_ab]
    on_stdout_frame [of "''c''" "''[download]  45.6% of 3MiB''" store_ab] e a
  show ?thesis by simp
qed

section \<open>Launch failure and non-zero exit\<close>

text \<open>
  Claim C7, as amended. When the process fails to start, the record gets status
  error and the error text \<^verbatim>\<open>Download process failed\<close>; when it exits with a code
  other than 0 (or by a signal), status error and the text \<^verbatim>\<open>Download failed\<close>, and
  no file discovery is scheduled. Both callbacks only write to the record: on an
  absent record they do nothing, other records and the directory are untouched, and
  neither has an exceptional result that could reach the submission call.
\<close>

theorem failure_handlers:
  "(\<forall>j. map_of (jobs w) jobId = Some j \<longrightarrow>
       map_of (jobs (on_error jobId w)) jobId =
         Some (j\<lparr>status := Error, error := Some ''Download process failed''\<rparr>))
   \<and> (\<forall>j. map_of (jobs w) jobId = Some j \<and> code \<noteq> Some 0 \<longrightarrow>
       map_of (jobs (on_close jobId code w)) jobId =
         Some (j\<lparr>status := Error, error := Some ''Download failed''\<rparr>)
       \<and> \<not> settle_scheduled jobId code w)
   \<and> (map_of (jobs w) jobId = None \<longrightarrow> on_error jobId w = w \<and> on_close jobId code w = w)
   \<and> (\<forall>k. k \<noteq> jobId \<longrightarrow>
         map_of (jobs (on_error jobId w)) k = map_of (jobs w) k
       \<and> map_of (jobs (on_close jobId code w)) k = map_of (jobs w) k)
   \<and> fs (on_error jobId w) = fs w \<and> fs (on_close jobId code w) = fs w"
  by (auto simp: on_error_def on_error_steps_def on_close_def on_close_steps_def Let_def
      map_of_assign has_job_def settle_scheduled_def)

theorem failure_handlers_witness:
  "map_of (jobs (on_error ''b'' store_ab)) ''b'' =
      Some (job_b\<lparr>status := Error, error := Some ''Download process failed''\<rparr>)
   \<and> map_of (jobs (on_close ''b'' (Some 1) store_ab)) ''b'' =
      Some (job_b\<lparr>status := Error, error := Some ''Download failed''\<rparr>)
   \<and> \<not> settle_scheduled ''b'' (Some 1) store_ab
   \<and> on_error ''c'' store_ab = store_ab"
proof -
  have a: "map_of (jobs store_ab) ''b'' = Some job_b" "map_of (jobs store_ab) ''c'' = None"
    by (simp_all add: store_ab_def)
  from failure_handlers [of store_ab "''b''" "Some 1"] failure_handlers [of store_ab "''c''" "Some 1"] a
  show ?thesis by simp
qed

text \<open>The texts stored are not the ones the claim quotes.\<close>

theorem failure_texts_counterexample:
  "error_of (on_error ''b'' store_ab) ''b'' \<noteq> Some ''process launch failed''
   \<and> error_of (on_close ''b'' (Some 1) store_ab) ''b'' \<noteq> Some ''download failed''"
  by (simp add: error_of_def on_error_def on_error_steps_def on_close_def on_close_steps_def
      Let_def has_job_def map_of_assign store_ab_def)

section \<open>Exit with code 0 and the file discovery\<close>

text \<open>
  Claim C4. For a job that is in the store (its id, a UUID, is not empty): exit code
  0 changes nothing and schedules the file discovery. The discovery scans the
  directory for the first name that begins with the job id. If there is one, the
  record ends with status completed, progress 100 and that name as its file. If
  there is none, it ends with status error and the text
  \<^verbatim>\<open>File not found after download\<close> (progress 100, no file). If the scan fails, it ends
  with status error and the text \<^verbatim>\<open>Failed to locate downloaded file\<close>.
\<close>

theorem on_settle_result:
  assumes "map_of (jobs w) jobId = Some j" and "jobId \<noteq> []"
  shows "(\<forall>f. readable (fs w) \<and> find (\<lambda>f. startsWith f jobId) (listing (fs w)) = Some f \<longrightarrow>
            map_of (jobs (on_settle jobId w)) jobId =
              Some (j\<lparr>status := Completed, progress := Num 100, file := Some f\<rparr>))
       \<and> (readable (fs w) \<and> find (\<lambda>f. startsWith f jobId) (listing (fs w)) = None \<longrightarrow>
            map_of (jobs (on_settle jobId w)) jobId =
              Some (j\<lparr>status := Error, progress := Num 100, file := None,
                      error := Some ''File not found after download''\<rparr>))
       \<and> (\<not> readable (fs w) \<longrightarrow>
            map_of (jobs (on_settle jobId w)) jobId =
              Some (j\<lparr>status := Error, error := Some ''Failed to locate downloaded file''\<rparr>))
       \<and> settle_scheduled jobId (Some 0) w \<and> on_close jobId (Some 0) w = w"
proof -
  have t: "truthy (Some f)" if "find (\<lambda>f. startsWith f jobId) (listing (fs w)) = Some f" for f
  proof -
    from that have "startsWith f jobId" by (auto simp: find_Some_iff)
    with assms(2) show ?thesis by (auto simp: startsWith_def truthy_def)
  qed
  show ?thesis using assms(1) t
    by (auto simp: on_settle_def on_settle_steps_def readdirSync_def Let_def map_of_assign
        has_job_def settle_scheduled_def on_close_def on_close_steps_def truthy_def)
qed

theorem on_settle_result_witness:
  "map_of (jobs (on_settle ''b'' store_ab)) ''b'' =
      Some (job_b\<lparr>status := Completed, progress := Num 100, file := Some ''b.webm''\<rparr>)
   \<and> settle_scheduled ''b'' (Some 0) store_ab \<and> on_close ''b'' (Some 0) store_ab = store_ab"
proof -
  have a: "map_of (jobs store_ab) ''b'' = Some job_b" "''b'' \<noteq> []"
    by (simp_all add: store_ab_def)
  have f: "readable (fs store_ab)"
    "find (\<lambda>f. startsWith f ''b'') (listing (fs store_ab)) = Some ''b.webm''"
    by (simp_all add: store_ab_def dir_ab_def startsWith_def)
  from on_settle_result [OF a] f show ?thesis by simp
qed

section \<open>The retention sweep\<close>

lemma delete_backing_file_cases:
  "delete_backing_file j f =
     (case backing_file j of
        None \<Rightarrow> Inr f
      | Some n \<Rightarrow>
          if n \<in> set (listing f) then
            (if n \<in> set (undeletable f) then Inl EPERM
             else Inr (f\<lparr>listing := removeAll n (listing f)\<rparr>))
          else Inr f)"
  by (simp add: delete_backing_file_def backing_file_def existsSync_def unlinkSync_def
      split: option.splits)

lemma cleanup_job_Inl_iff:
  "(\<exists>x. cleanup_job now k w = Inl x) \<longleftrightarrow> blocked now w k"
  by (auto simp: cleanup_job_def blocked_def delete_backing_file_cases
      split: option.splits sum.splits if_splits)

lemma cleanup_job_Inl_same: "cleanup_job now k w = Inl (e, w') \<Longrightarrow> w' = w \<and> e = EPERM"
  by (auto simp: cleanup_job_def delete_backing_file_cases split: option.splits sum.splits if_splits)

lemma cleanup_job_Inr:
  assumes "cleanup_job now k w = Inr w'"
  shows "map_of (jobs w') =
           (case map_of (jobs w) k of
              None \<Rightarrow> map_of (jobs w)
            | Some j \<Rightarrow> if expired now j then (map_of (jobs w))(k := None) else map_of (jobs w))"
    and "listing (fs w') =
           (case removed_by now w k of
              None \<Rightarrow> listing (fs w)
            | Some n \<Rightarrow> removeAll n (listing (fs w)))"
    and "readable (fs w') = readable (fs w)"
    and "undeletable (fs w') = undeletable (fs w)"
  using assms
  by (auto simp: cleanup_job_def delete_backing_file_cases removed_by_def delete_conv'
      split: option.splits sum.splits if_splits)


lemma blocked_cleanup_job:
  assumes "cleanup_job now k w = Inr w1"
  shows "blocked now w1 k' = blocked now w k'"
proof -
  from assms have nb: "\<not> blocked now w k"
    using cleanup_job_Inl_iff [of now k w] by auto
  note f = cleanup_job_Inr [OF assms]
  show ?thesis
  proof (cases "k' = k")
    case True
    with nb f(1) show ?thesis
      by (auto simp: blocked_def split: option.splits if_splits)
  next
    case False
    then have m: "map_of (jobs w1) k' = map_of (jobs w) k'"
      using f(1) by (auto split: option.splits if_splits)
    show ?thesis
    proof (cases "removed_by now w k")
      case None
      with f(2,4) m show ?thesis by (simp add: blocked_def split: option.splits)
    next
      case (Some n0)
      with nb have "\<not> (n0 \<in> set (listing (fs w)) \<and> n0 \<in> set (undeletable (fs w)))"
        by (auto simp: blocked_def removed_by_def split: option.splits if_splits)
      with Some f(2,4) m show ?thesis
        by (auto simp: blocked_def split: option.splits)
    qed
  qed
qed

lemma cleanup_loop_Inl_iff:
  "(\<exists>x. cleanup_loop now ks w = Inl x) \<longleftrightarrow> (\<exists>k\<in>set ks. blocked now w k)"
proof (induction ks arbitrary: w)
  case Nil
  then show ?case by simp
next
  case (Cons k ks)
  show ?case
  proof (cases "cleanup_job now k w")
    case (Inl x)
    then have "blocked now w k" using cleanup_job_Inl_iff [of now k w] by auto
    with Inl show ?thesis by auto
  next
    case (Inr w1)
    then have "\<not> blocked now w k" using cleanup_job_Inl_iff [of now k w] by auto
    with Inr Cons.IH [of w1] blocked_cleanup_job [OF Inr] show ?thesis by auto
  qed
qed

lemma set_expired_files_of:
  "set (expired_files_of now w ks) = {n. \<exists>k\<in>set ks. removed_by now w k = Some n}"
  unfolding expired_files_of_def
  by (induction ks) (auto split: option.splits)

lemma removed_by_cleanup_job:
  assumes "cleanup_job now k w = Inr w1"
  shows "removed_by now w1 k' = (if k' = k then None else removed_by now w k')"
  using cleanup_job_Inr(1) [OF assms]
  by (auto simp: removed_by_def split: option.splits if_splits)

lemma cleanup_loop_Inr:
  assumes "cleanup_loop now ks w = Inr w'"
  shows "map_of (jobs w') k' =
           (case map_of (jobs w) k' of
              None \<Rightarrow> None
            | Some j \<Rightarrow> if k' \<in> set ks \<and> expired now j then None else Some j)"
    and "listing (fs w') =
           filter (\<lambda>n. n \<notin> set (expired_files_of now w ks)) (listing (fs w))"
    and "readable (fs w') = readable (fs w)"
    and "undeletable (fs w') = undeletable (fs w)"
  using assms
proof (induction ks arbitrary: w)
  case Nil
  { case 1 then show ?case by (simp split: option.splits) }
  { case 2 then show ?case by (simp add: expired_files_of_def) }
  { case 3 then show ?case by simp }
  { case 4 then show ?case by simp }
next
  case (Cons k ks)
  { case 1
    then obtain w1 where j: "cleanup_job now k w = Inr w1" and l: "cleanup_loop now ks w1 = Inr w'"
      by (auto split: sum.splits)
    from Cons.IH(1) [OF l] cleanup_job_Inr(1) [OF j] show ?case
      by (auto split: option.splits if_splits) }
  { case 2
    then obtain w1 where j: "cleanup_job now k w = Inr w1" and l: "cleanup_loop now ks w1 = Inr w'"
      by (auto split: sum.splits)
    have "listing (fs w') =
        filter (\<lambda>n. n \<notin> set (expired_files_of now w1 ks)) (listing (fs w1))"
      by (rule Cons.IH(2) [OF l])
    also have "\<dots> = filter (\<lambda>n. n \<notin> set (expired_files_of now w (k # ks))) (listing (fs w))"
      using cleanup_job_Inr(2) [OF j] removed_by_cleanup_job [OF j]
      by (auto simp: set_expired_files_of removeAll_filter_not_eq split: option.splits
          intro!: filter_cong)
    finally show ?case . }
  { case 3
    then obtain w1 where j: "cleanup_job now k w = Inr w1" and l: "cleanup_loop now ks w1 = Inr w'"
      by (auto split: sum.splits)
    from Cons.IH(3) [OF l] cleanup_job_Inr(3) [OF j] show ?case by simp }
  { case 4
    then obtain w1 where j: "cleanup_job now k w = Inr w1" and l: "cleanup_loop now ks w1 = Inr w'"
      by (auto split: sum.splits)
    from Cons.IH(4) [OF l] cleanup_job_Inr(4) [OF j] show ?case by simp }
qed


lemma cleanup_loop_frame:
  assumes "w' = outcome_world (cleanup_loop now ks w)"
  shows "map_of (jobs w') k' = Some j \<Longrightarrow> map_of (jobs w) k' = Some j"
    and "map_of (jobs w) k' = Some j \<Longrightarrow> \<not> expired now j \<Longrightarrow> map_of (jobs w') k' = Some j"
    and "n \<in> set (listing (fs w)) \<Longrightarrow> n \<notin> set (expired_files_of now w ks) \<Longrightarrow>
           n \<in> set (listing (fs w'))"
  using assms
proof (induction ks arbitrary: w)
  case Nil
  { case 1 then show ?case by (simp add: outcome_world_def) }
  { case 2 then show ?case by (simp add: outcome_world_def) }
  { case 3 then show ?case by (simp add: outcome_world_def) }
next
  case (Cons k ks)
  { case 1
    show ?case
    proof (cases "cleanup_job now k w")
      case (Inl x)
      with 1 cleanup_job_Inl_same [of now k w "fst x" "snd x"] show ?thesis
        by (simp add: outcome_world_def split: prod.splits)
    next
      case (Inr w1)
      with 1 have "w' = outcome_world (cleanup_loop now ks w1)" by simp
      from Cons.IH(1) [OF _ this] 1 have "map_of (jobs w1) k' = Some j" by simp
      with cleanup_job_Inr(1) [OF Inr] show ?thesis
        by (auto split: option.splits if_splits)
    qed }
  { case 2
    show ?case
    proof (cases "cleanup_job now k w")
      case (Inl x)
      with 2 cleanup_job_Inl_same [of now k w "fst x" "snd x"] show ?thesis
        by (simp add: outcome_world_def split: prod.splits)
    next
      case (Inr w1)
      with 2 have w': "w' = outcome_world (cleanup_loop now ks w1)" by simp
      from 2 cleanup_job_Inr(1) [OF Inr] have "map_of (jobs w1) k' = Some j"
        by (auto split: option.splits if_splits)
      from Cons.IH(2) [OF this _ w'] 2 show ?thesis by simp
    qed }
  { case 3
    show ?case
    proof (cases "cleanup_job now k w")
      case (Inl x)
      with 3 cleanup_job_Inl_same [of now k w "fst x" "snd x"] show ?thesis
        by (simp add: outcome_world_def split: prod.splits)
    next
      case (Inr w1)
      with 3 have w': "w' = outcome_world (cleanup_loop now ks w1)" by simp
      from 3 have a: "removed_by now w k \<noteq> Some n"
        and b: "\<forall>k'\<in>set ks. removed_by now w k' \<noteq> Some n"
        by (auto simp: set_expired_files_of)
      from a 3 cleanup_job_Inr(2) [OF Inr] have "n \<in> set (listing (fs w1))"
        by (auto split: option.splits)
      moreover from b removed_by_cleanup_job [OF Inr]
      have "n \<notin> set (expired_files_of now w1 ks)"
        by (auto simp: set_expired_files_of split: if_splits)
      ultimately show ?thesis using Cons.IH(3) [OF _ _ w'] by simp
    qed }
qed

lemma cleanup_loop_Inl_blocked:
  "cleanup_loop now ks w = Inl (e, w') \<Longrightarrow> \<exists>k\<in>set ks. blocked now w' k"
proof (induction ks arbitrary: w)
  case Nil
  then show ?case by simp
next
  case (Cons k ks)
  show ?case
  proof (cases "cleanup_job now k w")
    case (Inl x)
    with Cons.prems have x: "x = (e, w')" by simp
    with Inl cleanup_job_Inl_same [of now k w e w'] cleanup_job_Inl_iff [of now k w]
    show ?thesis by auto
  next
    case (Inr w1)
    with Cons.prems Cons.IH [of w1] show ?thesis by auto
  qed
qed

lemma blocked_key: "blocked now w k \<Longrightarrow> k \<in> set (map fst (jobs w))"
  by (auto simp: blocked_def split: option.splits dest!: map_of_SomeD intro: rev_image_eqI)

lemma deletion_fails_iff: "deletion_fails now w \<longleftrightarrow> (\<exists>k. blocked now w k)"
proof
  assume "deletion_fails now w"
  then show "\<exists>k. blocked now w k" by (auto simp: deletion_fails_def list_ex_iff)
next
  assume "\<exists>k. blocked now w k"
  then obtain k where k: "blocked now w k" ..
  from blocked_key [OF k] k show "deletion_fails now w"
    unfolding deletion_fails_def list_ex_iff by blast
qed

lemma map_of_key: "map_of al k = Some v \<Longrightarrow> k \<in> set (map fst al)"
  by (auto dest!: map_of_SomeD intro: rev_image_eqI)

lemmas sweep_eval =
  cleanup_def cleanup_job_def delete_backing_file_def existsSync_def unlinkSync_def
  expired_def JOB_CLEANUP_TIME_def store_ab_def store_locked_def job_a_def job_b_def dir_ab_def

text \<open>
  Claim C1, as amended. The callback has no error handler. A sweep returns normally
  exactly when no expired job has a backing file that is in the directory and cannot
  be unlinked; then its scan has covered all records: the expired ones are gone, the
  others are as before. When a deletion fails, the exception leaves the callback, and
  the store at that moment still holds the record whose file could not be deleted.
\<close>

theorem sweep_completes_iff:
  "((\<exists>w'. cleanup now w = Inr w') \<longleftrightarrow> \<not> deletion_fails now w)
   \<and> (\<forall>w' k. cleanup now w = Inr w' \<longrightarrow>
         map_of (jobs w') k =
           (case map_of (jobs w) k of
              None \<Rightarrow> None
            | Some j \<Rightarrow> if expired now j then None else Some j))
   \<and> (\<forall>e w'. cleanup now w = Inl (e, w') \<longrightarrow> deletion_fails now w')"
proof (intro conjI allI impI)
  have "(\<exists>x. cleanup now w = Inl x) \<longleftrightarrow> deletion_fails now w"
    using cleanup_loop_Inl_iff [of now "map fst (jobs w)" w]
    by (simp add: cleanup_def deletion_fails_def list_ex_iff)
  then show "(\<exists>w'. cleanup now w = Inr w') \<longleftrightarrow> \<not> deletion_fails now w"
    by (cases "cleanup now w") auto
next
  fix w' k assume "cleanup now w = Inr w'"
  then have "cleanup_loop now (map fst (jobs w)) w = Inr w'" by (simp add: cleanup_def)
  from cleanup_loop_Inr(1) [OF this, of k]
  show "map_of (jobs w') k =
      (case map_of (jobs w) k of None \<Rightarrow> None | Some j \<Rightarrow> if expired now j then None else Some j)"
    by (auto split: option.splits dest: map_of_key)
next
  fix e w' assume "cleanup now w = Inl (e, w')"
  then have "cleanup_loop now (map fst (jobs w)) w = Inl (e, w')" by (simp add: cleanup_def)
  from cleanup_loop_Inl_blocked [OF this] show "deletion_fails now w'"
    by (auto simp: deletion_fails_iff)
qed

theorem sweep_completes_iff_witness:
  "cleanup 3601500 store_ab =
     Inr \<lparr>jobs = [(''b'', job_b)], fs = dir_ab\<lparr>listing := [''b.webm'']\<rparr>\<rparr>
   \<and> \<not> deletion_fails 3601500 store_ab
   \<and> map_of (jobs \<lparr>jobs = [(''b'', job_b)], fs = dir_ab\<lparr>listing := [''b.webm'']\<rparr>\<rparr>) ''a'' = None"
proof -
  have c: "cleanup 3601500 store_ab =
     Inr \<lparr>jobs = [(''b'', job_b)], fs = dir_ab\<lparr>listing := [''b.webm'']\<rparr>\<rparr>"
    by (simp add: sweep_eval)
  from sweep_completes_iff [of 3601500 store_ab] c show ?thesis by auto
qed

text \<open>
  With the file of \<open>a\<close> locked the sweep throws at the first record; \<open>b\<close>, expired as
  well, is never visited.
\<close>

theorem sweep_throws_counterexample:
  "cleanup 3700000 store_locked = Inl (EPERM, store_locked)
   \<and> map_of (jobs store_locked) ''b'' = Some job_b \<and> expired 3700000 job_b"
  by (simp add: sweep_eval)

section \<open>Records are removed by the sweep only\<close>

lemma map_of_submit:
  "map_of (jobs (submit jobId now w)) k =
     (if k = jobId
      then Some \<lparr>status = Downloading, progress = Num 0, file = None, error = None, createdAt = now\<rparr>
      else map_of (jobs w) k)"
  by (simp add: submit_def update_conv')

lemma after_cleanup_frame:
  shows "map_of (jobs (after_cleanup now w)) k = Some j \<Longrightarrow> map_of (jobs w) k = Some j"
    and "map_of (jobs w) k = Some j \<Longrightarrow> \<not> expired now j \<Longrightarrow>
           map_of (jobs (after_cleanup now w)) k = Some j"
    and "n \<in> set (listing (fs w)) \<Longrightarrow> n \<notin> set (expired_files now w) \<Longrightarrow>
           n \<in> set (listing (fs (after_cleanup now w)))"
proof -
  note f = cleanup_loop_frame [OF refl, where now = now and ks = "map fst (jobs w)" and w = w]
  show "map_of (jobs (after_cleanup now w)) k = Some j \<Longrightarrow> map_of (jobs w) k = Some j"
    unfolding after_cleanup_def cleanup_def by (rule f(1))
  show "map_of (jobs w) k = Some j \<Longrightarrow> \<not> expired now j \<Longrightarrow>
           map_of (jobs (after_cleanup now w)) k = Some j"
    unfolding after_cleanup_def cleanup_def by (rule f(2))
  show "n \<in> set (listing (fs w)) \<Longrightarrow> n \<notin> set (expired_files now w) \<Longrightarrow>
           n \<in> set (listing (fs (after_cleanup now w)))"
    unfolding after_cleanup_def cleanup_def expired_files_def by (rule f(3))
qed



lemmas handler_defs =
  on_stdout_steps_def on_error_steps_def on_close_steps_def on_settle_steps_def

lemma has_job_step:
  assumes "\<forall>t. e \<noteq> Sweep t" and "has_job w k"
  shows "has_job (step e w) k"
proof (cases e)
  case (Submit i t)
  with assms(2) show ?thesis by (simp add: step_def has_job_def map_of_submit)
next
  case (Stdout i l)
  with assms(2) show ?thesis
    by (simp add: step_def handler_defs split: option.splits)
next
  case (ProcError i)
  with assms(2) show ?thesis by (simp add: step_def handler_defs Let_def)
next
  case (Close i c)
  with assms(2) show ?thesis by (simp add: step_def handler_defs Let_def)
next
  case (Settle i)
  with assms(2) show ?thesis
    by (simp add: step_def handler_defs Let_def split: sum.splits)
next
  case (Sweep t)
  with assms(1) show ?thesis by simp
next
  case (Fetch i)
  with assms(2) show ?thesis
    by (simp add: step_def fetchProgress_def split: property.splits)
next
  case (Env f)
  with assms(2) show ?thesis by (simp add: step_def has_job_def)
qed

text \<open>
  Claim C9, as amended. No event other than a sweep removes a record. A record that a
  sweep removes is older than one hour (\<open>now - createdAt > 3600000\<close>); a record that is
  not older is kept as it is, no record is changed, and a file that no expired job
  records stays in the directory. When no deletion fails, the sweep returns normally,
  every expired record is gone, and the directory has lost exactly the backing files
  of the expired jobs (a recorded file that is already missing is skipped). The file
  is deleted before the record: when the deletion of a record's file fails, the store
  still holds the record.
\<close>

theorem retention_sweep:
  "(\<forall>k. (\<forall>t. e \<noteq> Sweep t) \<and> has_job w k \<longrightarrow> has_job (step e w) k)
   \<and> (\<forall>k j. map_of (jobs w) k = Some j \<and> map_of (jobs (after_cleanup now w)) k = None \<longrightarrow>
         now - createdAt j > 60 * 60 * 1000)
   \<and> (\<forall>k j. map_of (jobs w) k = Some j \<and> \<not> expired now j \<longrightarrow>
         map_of (jobs (after_cleanup now w)) k = Some j)
   \<and> (\<forall>k j. map_of (jobs (after_cleanup now w)) k = Some j \<longrightarrow> map_of (jobs w) k = Some j)
   \<and> (\<forall>n. n \<in> set (listing (fs w)) \<and> n \<notin> set (expired_files now w) \<longrightarrow>
         n \<in> set (listing (fs (after_cleanup now w))))
   \<and> (\<not> deletion_fails now w \<longrightarrow>
        (\<exists>w'. cleanup now w = Inr w'
          \<and> (\<forall>k. map_of (jobs w') k =
                (case map_of (jobs w) k of
                   None \<Rightarrow> None
                 | Some j \<Rightarrow> if expired now j then None else Some j))
          \<and> listing (fs w') = filter (\<lambda>n. n \<notin> set (expired_files now w)) (listing (fs w))
          \<and> readable (fs w') = readable (fs w)
          \<and> undeletable (fs w') = undeletable (fs w)))
   \<and> (\<forall>k x. cleanup_job now k w = Inl x \<longrightarrow> snd x = w)"
proof (intro conjI allI impI)
  fix k assume "(\<forall>t. e \<noteq> Sweep t) \<and> has_job w k"
  then show "has_job (step e w) k" using has_job_step by blast
next
  fix k j assume "map_of (jobs w) k = Some j \<and> map_of (jobs (after_cleanup now w)) k = None"
  with after_cleanup_frame(2) [of w k j now] have "expired now j" by auto
  then show "now - createdAt j > 60 * 60 * 1000"
    by (simp add: expired_def JOB_CLEANUP_TIME_def)
next
  fix k j assume "map_of (jobs w) k = Some j \<and> \<not> expired now j"
  then show "map_of (jobs (after_cleanup now w)) k = Some j"
    using after_cleanup_frame(2) by blast
next
  fix k j assume "map_of (jobs (after_cleanup now w)) k = Some j"
  then show "map_of (jobs w) k = Some j" by (rule after_cleanup_frame(1))
next
  fix n assume "n \<in> set (listing (fs w)) \<and> n \<notin> set (expired_files now w)"
  then show "n \<in> set (listing (fs (after_cleanup now w)))"
    using after_cleanup_frame(3) by blast
next
  assume "\<not> deletion_fails now w"
  then have "\<not> (\<exists>x. cleanup_loop now (map fst (jobs w)) w = Inl x)"
    using cleanup_loop_Inl_iff [of now "map fst (jobs w)" w]
    by (simp add: deletion_fails_def list_ex_iff)
  then obtain w' where l: "cleanup_loop now (map fst (jobs w)) w = Inr w'"
    by (cases "cleanup_loop now (map fst (jobs w)) w") auto
  have "map_of (jobs w') k =
      (case map_of (jobs w) k of None \<Rightarrow> None | Some j \<Rightarrow> if expired now j then None else Some j)"
    for k
    using cleanup_loop_Inr(1) [OF l, of k] by (auto split: option.splits dest: map_of_key)
  with l cleanup_loop_Inr(2-4) [OF l]
  show "\<exists>w'. cleanup now w = Inr w'
          \<and> (\<forall>k. map_of (jobs w') k =
                (case map_of (jobs w) k of
                   None \<Rightarrow> None
                 | Some j \<Rightarrow> if expired now j then None else Some j))
          \<and> listing (fs w') = filter (\<lambda>n. n \<notin> set (expired_files now w)) (listing (fs w))
          \<and> readable (fs w') = readable (fs w)
          \<and> undeletable (fs w') = undeletable (fs w)"
    by (simp add: cleanup_def expired_files_def)
next
  fix k x assume "cleanup_job now k w = Inl x"
  then show "snd x = w" using cleanup_job_Inl_same [of now k w "fst x" "snd x"] by simp
qed

theorem retention_sweep_witness:
  "has_job (step (Stdout ''b'' ''1.5%'') store_ab) ''a''
   \<and> cleanup 3601500 store_ab =
       Inr \<lparr>jobs = [(''b'', job_b)], fs = dir_ab\<lparr>listing := [''b.webm'']\<rparr>\<rparr>
   \<and> map_of (jobs (after_cleanup 3601500 store_ab)) ''b'' = Some job_b
   \<and> ''b.webm'' \<in> set (listing (fs (after_cleanup 3601500 store_ab)))
   \<and> (3601500 - createdAt job_a > 60 * 60 * 1000)"
proof -
  have a: "has_job store_ab ''a''" "map_of (jobs store_ab) ''b'' = Some job_b"
    "map_of (jobs store_ab) ''a'' = Some job_a"
    "\<not> expired 3601500 job_b" "\<not> deletion_fails 3601500 store_ab"
    "''b.webm'' \<in> set (listing (fs store_ab))" "''b.webm'' \<notin> set (expired_files 3601500 store_ab)"
    by (simp_all add: has_job_def deletion_fails_def blocked_def backing_file_def expired_files_def
        expired_files_of_def removed_by_def sweep_eval)
  have c: "cleanup 3601500 store_ab =
       Inr \<lparr>jobs = [(''b'', job_b)], fs = dir_ab\<lparr>listing := [''b.webm'']\<rparr>\<rparr>"
    by (simp add: sweep_eval)
  have n: "map_of (jobs (after_cleanup 3601500 store_ab)) ''a'' = None"
    by (simp add: after_cleanup_def outcome_world_def c)
  from retention_sweep [of "Stdout ''b'' ''1.5%''" store_ab 3601500] a c n
  show ?thesis by blast
qed

text \<open>
  With the file of \<open>a\<close> locked, both records are older than one hour and both are
  still there after the sweep, and so is the file.
\<close>

theorem retention_sweep_counterexample:
  "expired 3700000 job_a \<and> expired 3700000 job_b
   \<and> map_of (jobs (after_cleanup 3700000 store_locked)) ''a'' = Some job_a
   \<and> map_of (jobs (after_cleanup 3700000 store_locked)) ''b'' = Some job_b
   \<and> ''a.mp4'' \<in> set (listing (fs (after_cleanup 3700000 store_locked)))"
  by (simp add: after_cleanup_def outcome_world_def sweep_eval)


section \<open>The progress query\<close>

text \<open>
  The query never changes the store. For an id that is a key of the store it is a
  projection of the record, and for an absent id that is no property name of
  \<^verbatim>\<open>Object.prototype\<close> it answers not-found.
\<close>

lemma fetchProgress_readonly: "snd (fetchProgress jobId w) = w"
  by (simp add: fetchProgress_def split: property.splits)

lemma fetchProgress_own:
  "map_of (jobs w) jobId = Some j \<Longrightarrow>
     fst (fetchProgress jobId w) =
       (if status j = Completed then CompletedResp (Num 100) (file_url (file j))
        else if status j = Error then
          ErrorResp (progress j)
            (case error j of None \<Rightarrow> ''Unknown error''
             | Some e \<Rightarrow> if e = [] then ''Unknown error'' else e)
        else StatusResp (Some (status j)) (Some (progress j)))"
  by (simp add: fetchProgress_def jobs_get_def)

lemma fetchProgress_absent:
  "map_of (jobs w) jobId = None \<Longrightarrow> jobId \<notin> set object_prototype_keys \<Longrightarrow>
     fst (fetchProgress jobId w) = NotFound"
  by (simp add: fetchProgress_def jobs_get_def)

text \<open>
  Claim C8. The not-found answer fails for the route parameter \<^verbatim>\<open>constructor\<close>: no job
  has that id, \<^verbatim>\<open>jobs["constructor"]\<close> is the inherited \<^verbatim>\<open>Object\<close> function, \<^verbatim>\<open>!job\<close>
  is false, and the handler answers with \<^verbatim>\<open>success: true\<close>, status and progress
  undefined.
\<close>

theorem fetchProgress_inherited_key:
  "map_of (jobs store_ab) ''constructor'' = None
   \<and> fetchProgress ''constructor'' store_ab = (StatusResp None None, store_ab)"
  by (simp add: fetchProgress_def jobs_get_def object_prototype_keys_def store_ab_def)

section \<open>Observed progress\<close>

lemma map_of_on_stdout:
  "map_of (jobs (on_stdout jobId line w)) k =
     (if k = jobId
      then map_option
             (\<lambda>j. j\<lparr>progress := (case ProgressParser_parse line of None \<Rightarrow> progress j | Some v \<Rightarrow> v)\<rparr>)
             (map_of (jobs w) jobId)
      else map_of (jobs w) k)"
  by (cases "map_of (jobs w) jobId")
    (auto simp: on_stdout_def on_stdout_steps_def map_of_assign has_job_def
      ProgressParser_parse_def split: option.splits)

lemma latest_reported_hd: "\<exists>t. latest_reported p ls = p # t"
  by (cases ls) auto

lemma latest_reported_sorted:
  "sorted (latest_reported p ls) \<longleftrightarrow> sorted (p # List.map_filter ProgressParser_parse ls)"
proof (induction ls arbitrary: p)
  case Nil
  then show ?case by simp
next
  case (Cons l ls)
  let ?p' = "case ProgressParser_parse l of None \<Rightarrow> p | Some v \<Rightarrow> v"
  obtain t where t: "latest_reported ?p' ls = ?p' # t"
    using latest_reported_hd by blast
  have "sorted (latest_reported p (l # ls)) \<longleftrightarrow> p \<le> ?p' \<and> sorted (latest_reported ?p' ls)"
    using t by (simp del: sorted_wrt.simps add: sorted2)
  also have "\<dots> \<longleftrightarrow> p \<le> ?p' \<and> sorted (?p' # List.map_filter ProgressParser_parse ls)"
    using Cons.IH [of ?p'] by simp
  also have "\<dots> \<longleftrightarrow> sorted (p # List.map_filter ProgressParser_parse (l # ls))"
    by (cases "ProgressParser_parse l") (auto simp del: sorted_wrt.simps simp add: sorted2)
  finally show ?case .
qed

lemma observations_latest:
  "map_of (jobs w) jobId = Some j \<Longrightarrow> status j \<notin> {Completed, Error} \<Longrightarrow>
     observations jobId ls w = map Some (latest_reported (progress j) ls)"
proof (induction ls arbitrary: w j)
  case Nil
  then show ?case by (simp add: fetchProgress_own)
next
  case (Cons l ls)
  let ?j' = "j\<lparr>progress := (case ProgressParser_parse l of None \<Rightarrow> progress j | Some v \<Rightarrow> v)\<rparr>"
  from Cons.prems have m: "map_of (jobs (on_stdout jobId l w)) jobId = Some ?j'"
    by (simp add: map_of_on_stdout)
  from Cons.prems have s: "status ?j' \<notin> {Completed, Error}" by simp
  from Cons.IH [OF m s] Cons.prems show ?case by (simp add: fetchProgress_own)
qed

text \<open>
  Claim C3, as amended. While the job is active, a query shows the percentage of the
  latest matching output line (the stored value before any line matched); nothing
  keeps the value from going down. The observed values are non-decreasing exactly
  when the stored value followed by the percentages of the lines is non-decreasing.
\<close>

theorem observed_progress:
  assumes "map_of (jobs w) jobId = Some j" and "status j \<notin> {Completed, Error}"
  shows "observations jobId ls w = map Some (latest_reported (progress j) ls)
       \<and> (sorted (latest_reported (progress j) ls) \<longleftrightarrow>
            sorted (progress j # List.map_filter ProgressParser_parse ls))"
  using observations_latest [OF assms] latest_reported_sorted by simp

lemmas stdout_eval =
  on_stdout_def on_stdout_steps_def has_job_def assign_def fetchProgress_def jobs_get_def
  match_at_def is_digit_def parseFloat_def decimal_val_def digits_val_def digit_val_def
  store_ab_def job_a_def job_b_def

theorem observed_progress_witness:
  "observations ''b'' [''10.0%'', ''noise'', ''50.0%''] store_ab =
     [Some (Num 0), Some (Num 10), Some (Num 10), Some (Num 50)]
   \<and> sorted (latest_reported (Num 0) [''10.0%'', ''noise'', ''50.0%''])"
proof -
  have a: "map_of (jobs store_ab) ''b'' = Some job_b" "status job_b \<notin> {Completed, Error}"
    "progress job_b = Num 0"
    by (simp_all add: store_ab_def job_b_def)
  have p: "ProgressParser_parse ''10.0%'' = Some (Num 10)" "ProgressParser_parse ''noise'' = None"
    "ProgressParser_parse ''50.0%'' = Some (Num 50)"
    by (simp_all add: parse_eval)
  from observed_progress [OF a(1,2), of "[''10.0%'', ''noise'', ''50.0%'']"] a(3) p
  show ?thesis by simp
qed

text \<open>
  The download tool restarts its percentage for every stream it fetches: 50 and then
  10 are observed as 0, 50, 10.
\<close>

theorem progress_decreases_counterexample:
  "observations ''b'' [''50.0%'', ''10.0%''] store_ab = [Some (Num 0), Some (Num 50), Some (Num 10)]
   \<and> \<not> (Num 50 \<le> Num 10)"
  by (simp add: stdout_eval)


section \<open>Statuses along a run\<close>

lemma kw_refl [simp]: "keeps_or_writes S k w w"
  by (simp add: keeps_or_writes_def status_of_def split: option.splits)

lemma kw_trans:
  "keeps_or_writes S k a b \<Longrightarrow> keeps_or_writes S k b c \<Longrightarrow> keeps_or_writes S k a c"
  by (auto simp: keeps_or_writes_def status_of_def split: option.splits)

lemma kw_transp: "transp (keeps_or_writes S k)"
  using kw_trans by (auto simp: transp_def)

lemma kw_same_jobs: "map_of (jobs w') k = map_of (jobs w) k \<Longrightarrow> keeps_or_writes S k w w'"
  by (simp add: keeps_or_writes_def status_of_def split: option.splits)

lemma kw_status [simp]:
  "s \<in> S \<Longrightarrow> keeps_or_writes S k w (assign i (\<lambda>j. j\<lparr>status := s\<rparr>) w)"
  by (auto simp: keeps_or_writes_def status_of_def map_of_assign split: option.splits)

lemma kw_other [simp]:
  "keeps_or_writes S k w (assign i (\<lambda>j. j\<lparr>progress := p\<rparr>) w)"
  "keeps_or_writes S k w (assign i (\<lambda>j. j\<lparr>file := f\<rparr>) w)"
  "keeps_or_writes S k w (assign i (\<lambda>j. j\<lparr>error := e\<rparr>) w)"
  by (auto simp: keeps_or_writes_def status_of_def map_of_assign split: option.splits)

lemma kw_steps:
  assumes "Downloading \<in> S \<or> (\<forall>t. e \<noteq> Submit k t)" and "Completed \<in> S" and "Error \<in> S"
  shows "successively (keeps_or_writes S k) (w # steps e w)"
proof (cases e)
  case (Submit i t)
  with assms(1) show ?thesis
    by (auto simp: keeps_or_writes_def status_of_def map_of_submit split: option.splits)
next
  case (Stdout i l)
  then show ?thesis by (simp add: on_stdout_steps_def split: option.splits)
next
  case (ProcError i)
  with assms(3) show ?thesis by (simp add: on_error_steps_def Let_def)
next
  case (Close i c)
  with assms(3) show ?thesis by (simp add: on_close_steps_def Let_def)
next
  case (Settle i)
  with assms(2,3) show ?thesis
    by (simp add: on_settle_steps_def Let_def split: sum.splits)
next
  case (Sweep t)
  have "keeps_or_writes S k w (after_cleanup t w)"
    using after_cleanup_frame(1) [of t w k]
    by (auto simp: keeps_or_writes_def status_of_def split: option.splits)
  with Sweep show ?thesis by simp
next
  case (Fetch i)
  then show ?thesis by (simp add: fetchProgress_readonly)
next
  case (Env f)
  then show ?thesis by (simp add: kw_same_jobs)
qed

lemma kw_trace:
  assumes "Downloading \<in> S \<or> (\<forall>t. Submit k t \<notin> set es)" and "Completed \<in> S" and "Error \<in> S"
  shows "successively (keeps_or_writes S k) (w # trace es w)"
  using assms(1)
proof (induction es arbitrary: w)
  case Nil
  then show ?case by simp
next
  case (Cons e es)
  let ?w1 = "step e w"
  from Cons.prems have e: "Downloading \<in> S \<or> (\<forall>t. e \<noteq> Submit k t)"
    and es: "Downloading \<in> S \<or> (\<forall>t. Submit k t \<notin> set es)" by auto
  have a: "successively (keeps_or_writes S k) (w # steps e w)"
    by (rule kw_steps [OF e assms(2,3)])
  have b: "successively (keeps_or_writes S k) (?w1 # trace es ?w1)"
    by (rule Cons.IH [OF es])
  have "w # trace (e # es) w = (w # steps e w) @ trace es ?w1" by simp
  moreover have "successively (keeps_or_writes S k) ((w # steps e w) @ trace es ?w1)"
    unfolding successively_append_iff
    using a b by (auto simp: successively_Cons step_def)
  ultimately show ?case by simp
qed

lemma kw_trace_nth:
  assumes "Downloading \<in> S \<or> (\<forall>t. Submit k t \<notin> set es)" and "Completed \<in> S" and "Error \<in> S"
    and "i \<le> n" and "n < length (w # trace es w)"
  shows "keeps_or_writes S k ((w # trace es w) ! i) ((w # trace es w) ! n)"
proof (cases "i = n")
  case True
  then show ?thesis by simp
next
  case False
  with assms(4) have lt: "i < n" by simp
  have sw: "sorted_wrt (keeps_or_writes S k) (w # trace es w)"
    using kw_trace [OF assms(1-3)] successively_conv_sorted_wrt [OF kw_transp] by blast
  show ?thesis by (rule sorted_wrt_nth_less [OF sw lt assms(5)])
qed

lemmas trace_eval =
  step_def on_stdout_steps_def on_close_steps_def on_settle_steps_def has_job_def assign_def
  readdirSync_def startsWith_def truthy_def Let_def
  match_at_def is_digit_def parseFloat_def decimal_val_def digits_val_def digit_val_def
  store_ab_def job_a_def job_b_def dir_ab_def

text \<open>
  Claim C2, as amended. Along any sequence of events after the job's creation (no
  second submission under the same id), looking at the store after every single
  assignment: the status of a job at a later point has a rank in the chain pending,
  downloading, processing, completed or error that is not below its rank at an earlier
  point; it is the earlier status or one of the two final statuses. The two final
  statuses may follow each other: the file discovery assigns completed first and,
  when no file is found, error right after it.
\<close>

theorem status_moves_forward:
  assumes "\<forall>t. Submit jobId t \<notin> set es"
    and "i \<le> n" and "n < length (w # trace es w)"
    and "map_of (jobs ((w # trace es w) ! i)) jobId = Some ji"
    and "map_of (jobs ((w # trace es w) ! n)) jobId = Some jn"
  shows "rank (status ji) \<le> rank (status jn)
       \<and> (status jn = status ji \<or> status jn = Completed \<or> status jn = Error)"
proof -
  have "keeps_or_writes {Completed, Error} jobId ((w # trace es w) ! i) ((w # trace es w) ! n)"
    using assms(1-3) by (intro kw_trace_nth) auto
  with assms(4,5) have s: "status jn = status ji \<or> status jn = Completed \<or> status jn = Error"
    by (auto simp: keeps_or_writes_def status_of_def)
  then have "rank (status ji) \<le> rank (status jn)"
    by (cases "status ji") auto
  with s show ?thesis by simp
qed

theorem status_moves_forward_witness:
  "length (store_ab # trace [Stdout ''b'' ''50.0%'', Close ''b'' (Some 0), Settle ''b''] store_ab) = 5
   \<and> map_of (jobs ((store_ab #
        trace [Stdout ''b'' ''50.0%'', Close ''b'' (Some 0), Settle ''b''] store_ab) ! 4)) ''b''
      = Some (job_b\<lparr>status := Completed, progress := Num 100, file := Some ''b.webm''\<rparr>)
   \<and> rank (status job_b) \<le> rank Completed"
proof -
  let ?es = "[Stdout ''b'' ''50.0%'', Close ''b'' (Some 0), Settle ''b'']"
  have t: "trace ?es store_ab =
     [store_ab\<lparr>jobs := [(''a'', job_a), (''b'', job_b\<lparr>progress := Num 50\<rparr>)]\<rparr>,
      store_ab\<lparr>jobs := [(''a'', job_a), (''b'', job_b\<lparr>progress := Num 50, status := Completed\<rparr>)]\<rparr>,
      store_ab\<lparr>jobs := [(''a'', job_a), (''b'', job_b\<lparr>progress := Num 100, status := Completed\<rparr>)]\<rparr>,
      store_ab\<lparr>jobs := [(''a'', job_a),
        (''b'', job_b\<lparr>progress := Num 100, status := Completed, file := Some ''b.webm''\<rparr>)]\<rparr>]"
    by (simp add: trace_eval)
  have a: "\<forall>t. Submit ''b'' t \<notin> set ?es" "(0::nat) \<le> 4"
    "4 < length (store_ab # trace ?es store_ab)"
    "map_of (jobs ((store_ab # trace ?es store_ab) ! 0)) ''b'' = Some job_b"
    "map_of (jobs ((store_ab # trace ?es store_ab) ! 4)) ''b'' =
       Some (job_b\<lparr>status := Completed, progress := Num 100, file := Some ''b.webm''\<rparr>)"
    unfolding t by (simp_all add: store_ab_def job_b_def)
  from status_moves_forward [OF a] a(5) t show ?thesis by simp
qed

text \<open>
  For a job \<open>c\<close> with no file in the directory, the first assignment of the file
  discovery stores completed and the fourth stores error.
\<close>

theorem completed_then_error_counterexample:
  "status_of (on_settle_steps ''c'' (submit ''c'' 5000 store_ab) ! 0) ''c'' = Some Completed
   \<and> status_of (on_settle_steps ''c'' (submit ''c'' 5000 store_ab) ! 3) ''c'' = Some Error
   \<and> length (on_settle_steps ''c'' (submit ''c'' 5000 store_ab)) = 5"
  by (simp add: status_of_def submit_def trace_eval)

text \<open>
  Claim C10. In every store of every run that starts with the empty store, each
  record has status downloading, completed or error; a submission creates the record
  with status downloading; and in any store whatsoever an event leaves a status as
  it was or stores one of these three: pending and processing are never assigned.
\<close>

theorem statuses_stored:
  "(\<forall>w' k j. w' \<in> set (trace es (initial f)) \<and> map_of (jobs w') k = Some j \<longrightarrow>
       status j \<in> {Downloading, Completed, Error})
   \<and> map_of (jobs (submit jobId now w)) jobId =
       Some \<lparr>status = Downloading, progress = Num 0, file = None, error = None, createdAt = now\<rparr>
   \<and> (\<forall>w' k j'. w' \<in> set (steps e w) \<and> map_of (jobs w') k = Some j' \<longrightarrow>
       status j' \<in> {Downloading, Completed, Error} \<or> status_of w k = Some (status j'))"
proof (intro conjI allI impI)
  fix w' k j
  assume a: "w' \<in> set (trace es (initial f)) \<and> map_of (jobs w') k = Some j"
  then obtain n where n: "n < length (trace es (initial f))" "trace es (initial f) ! n = w'"
    by (auto simp: in_set_conv_nth)
  have "keeps_or_writes {Downloading, Completed, Error} k
      ((initial f # trace es (initial f)) ! 0) ((initial f # trace es (initial f)) ! Suc n)"
    using n(1) by (intro kw_trace_nth) auto
  with n(2) a show "status j \<in> {Downloading, Completed, Error}"
    by (auto simp: keeps_or_writes_def status_of_def initial_def)
next
  show "map_of (jobs (submit jobId now w)) jobId =
       Some \<lparr>status = Downloading, progress = Num 0, file = None, error = None, createdAt = now\<rparr>"
    by (simp add: map_of_submit)
next
  fix w' k j'
  assume a: "w' \<in> set (steps e w) \<and> map_of (jobs w') k = Some j'"
  have "sorted_wrt (keeps_or_writes {Downloading, Completed, Error} k) (w # steps e w)"
    using kw_steps [of "{Downloading, Completed, Error}" e k w]
      successively_conv_sorted_wrt [OF kw_transp] by blast
  with a have "keeps_or_writes {Downloading, Completed, Error} k w w'" by auto
  with a show "status j' \<in> {Downloading, Completed, Error} \<or> status_of w k = Some (status j')"
    by (auto simp: keeps_or_writes_def)
qed


theorem statuses_stored_witness:
  "run [Submit ''c'' 5000, Stdout ''c'' ''50.0%'', Close ''c'' (Some 0), Settle ''c''] (initial dir_ab)
     \<in> set (trace [Submit ''c'' 5000, Stdout ''c'' ''50.0%'', Close ''c'' (Some 0), Settle ''c'']
         (initial dir_ab))
   \<and> status_of (run [Submit ''c'' 5000, Stdout ''c'' ''50.0%'', Close ''c'' (Some 0), Settle ''c'']
        (initial dir_ab)) ''c'' = Some Error
   \<and> Error \<in> {Downloading, Completed, Error}"
proof -
  let ?es = "[Submit ''c'' 5000, Stdout ''c'' ''50.0%'', Close ''c'' (Some 0), Settle ''c'']"
  let ?j = "\<lparr>status = Error, progress = Num 100, file = None,
             error = Some ''File not found after download'', createdAt = 5000\<rparr>"
  have r: "run ?es (initial dir_ab) = \<lparr>jobs = [(''c'', ?j)], fs = dir_ab\<rparr>"
    by (simp add: run_def initial_def submit_def trace_eval)
  have m: "run ?es (initial dir_ab) \<in> set (trace ?es (initial dir_ab))"
    by (simp add: run_def initial_def submit_def trace_eval)
  have j: "map_of (jobs (run ?es (initial dir_ab))) ''c'' = Some ?j"
    unfolding r by simp
  from statuses_stored [of ?es dir_ab "''c''" 5000 store_ab "Settle ''c''"] m j
  have "status ?j \<in> {Downloading, Completed, Error}" by blast
  with m j show ?thesis by (simp add: status_of_def)
qed


end
